theory Spec2Isabelle
  imports Complex_Main "HOL-Library.List_Lexorder" "HOL-Library.Char_ord"
begin

section \<open>JavaScript numbers\<close>

text \<open>
  The TypeScript sources compute with IEEE doubles.  The model computes with real
  numbers (angles, coordinates) and with integers (millisecond clock values): a finite
  double is taken for the real number it stands for, and rounding is outside the model
  (where the double sum \<open>a + 360\<close> of \<open>normalizeAngle\<close> rounds up to exactly 360, the
  model has a value just below 360).  The values that are not numbers are in the model:
  the quotient of a division can be an infinity or \<open>NaN\<close>, and a heading can be \<open>NaN\<close>.
  The model has one zero, which stands for the positive zero of IEEE.

  The remainder operator \<open>%\<close> of JavaScript truncates the quotient towards zero, so
  that the result takes the sign of the dividend.
\<close>

definition js_trunc :: "real \<Rightarrow> int" where
  "js_trunc x = (if 0 \<le> x then \<lfloor>x\<rfloor> else \<lceil>x\<rceil>)"

definition js_rem :: "real \<Rightarrow> real \<Rightarrow> real" where
  "js_rem x y = x - y * of_int (js_trunc (x / y))"

text \<open>
  The remainder in the mathematical sense (always in \<open>[0, m)\<close> for positive \<open>m\<close>), as
  the specification writes \<open>mod\<close>; it is compared with \<open>js_rem\<close> below.
\<close>

definition spec_mod :: "real \<Rightarrow> real \<Rightarrow> real" where
  "spec_mod x m = x - m * of_int \<lfloor>x / m\<rfloor>"

text \<open>
  A JavaScript number as a heading can hold it: a finite number or \<open>NaN\<close>.  Arithmetic
  with \<open>NaN\<close> gives \<open>NaN\<close>; \<open>nan_map\<close> and \<open>nan_map2\<close> apply a function of finite
  numbers accordingly.
\<close>

datatype jsnum = Num real | NaN

fun nan_map :: "(real \<Rightarrow> real) \<Rightarrow> jsnum \<Rightarrow> jsnum" where
  "nan_map f (Num x) = Num (f x)"
| "nan_map f NaN = NaN"

fun nan_map2 :: "(real \<Rightarrow> real \<Rightarrow> real) \<Rightarrow> jsnum \<Rightarrow> jsnum \<Rightarrow> jsnum" where
  "nan_map2 f (Num x) (Num y) = Num (f x y)"
| "nan_map2 f _ _ = NaN"

text \<open>
  The operator \<open>/\<close> on finite numbers: a finite quotient, an infinity when only the
  divisor is zero, \<open>NaN\<close> for \<open>0 / 0\<close>.  \<open>Math.atan\<close> maps the infinities to \<open>\<pi>/2\<close> and \<open>-\<pi>/2\<close>.
\<close>

datatype quotient = Quotient real | PosInfinity | NegInfinity | NaNQuotient

definition js_div :: "real \<Rightarrow> real \<Rightarrow> quotient" where
  "js_div x y =
     (if y \<noteq> 0 then Quotient (x / y)
      else if x = 0 then NaNQuotient
      else if 0 < x then PosInfinity
      else NegInfinity)"

fun Math_atan :: "quotient \<Rightarrow> jsnum" where
  "Math_atan (Quotient q) = Num (arctan q)"
| "Math_atan PosInfinity = Num (pi / 2)"
| "Math_atan NegInfinity = Num (- (pi / 2))"
| "Math_atan NaNQuotient = NaN"

section \<open>Heading estimator: hooks/useDeviceOrientation.ts\<close>

subsection \<open>Angles\<close>

definition normalizeAngle :: "real \<Rightarrow> real" where
  "normalizeAngle deg = (let a = js_rem deg 360 in if a < 0 then a + 360 else a)"

definition shortestDelta :: "real \<Rightarrow> real \<Rightarrow> real" where
  "shortestDelta a b = js_rem (b - a + 540) 360 - 180"

text \<open>The two rotation components of \<open>computeCompassHeadingFromEuler\<close> (angles in degrees).\<close>

definition rA :: "real \<Rightarrow> real \<Rightarrow> real \<Rightarrow> real" where
  "rA alpha beta gamma =
     (let alphaRad = alpha * (pi / 180); betaRad = beta * (pi / 180);
          gammaRad = gamma * (pi / 180);
          cA = cos alphaRad; sA = sin alphaRad; sB = sin betaRad;
          cG = cos gammaRad; sG = sin gammaRad
      in - cA * sG - sA * sB * cG)"

definition rB :: "real \<Rightarrow> real \<Rightarrow> real \<Rightarrow> real" where
  "rB alpha beta gamma =
     (let alphaRad = alpha * (pi / 180); betaRad = beta * (pi / 180);
          gammaRad = gamma * (pi / 180);
          cA = cos alphaRad; sA = sin alphaRad; sB = sin betaRad;
          cG = cos gammaRad; sG = sin gammaRad
      in - sA * sG + cA * sB * cG)"

text \<open>
  \<open>computeCompassHeadingFromEuler\<close>.  The quotient \<open>rA / rB\<close> is the division of
  JavaScript, so the heading is \<open>NaN\<close> when both components are zero.
\<close>

definition computeCompassHeadingFromEuler :: "real \<Rightarrow> real \<Rightarrow> real \<Rightarrow> jsnum" where
  "computeCompassHeadingFromEuler alpha beta gamma =
     (let a = rA alpha beta gamma; b = rB alpha beta gamma;
          compassHeading = Math_atan (js_div a b);
          compassHeading' =
            (if b < 0 then nan_map (\<lambda>c. c + pi) compassHeading
             else if a < 0 then nan_map (\<lambda>c. c + 2 * pi) compassHeading
             else compassHeading)
      in nan_map (\<lambda>c. (c * 180) / pi) compassHeading')"

text \<open>
  The conversion as the specification words it: \<open>atan(rA/rB)\<close>, shifted by \<open>\<pi>\<close> if
  \<open>rB < 0\<close>, shifted by \<open>2\<pi>\<close> if additionally \<open>rA < 0\<close>; then degrees.
\<close>

definition spec_eulerHeading :: "real \<Rightarrow> real \<Rightarrow> real \<Rightarrow> jsnum" where
  "spec_eulerHeading alpha beta gamma =
     (let a = rA alpha beta gamma; b = rB alpha beta gamma;
          shift = (if b < 0 then (if a < 0 then 2 * pi else pi) else 0)
      in nan_map (\<lambda>t. ((t + shift) * 180) / pi) (Math_atan (js_div a b)))"

subsection \<open>State of the hook\<close>

record DeviceOrientationState =
  o_alpha :: "real option"
  o_beta :: "real option"
  o_gamma :: "real option"
  o_heading :: "jsnum option"
  o_absolute :: bool
  o_isSupported :: bool
  o_hasPermission :: "bool option"
  o_error :: "string option"

record Vec3 =
  vx :: real
  vy :: real
  vz :: real

text \<open>The references and state cells of \<open>useDeviceOrientation\<close> that the handlers touch.\<close>

record hook =
  orientation :: DeviceOrientationState
  isActive :: bool
  latestAccel :: "Vec3 option"
  latestMag :: "Vec3 option"
  lastHeadingRef :: "jsnum option"

text \<open>
  What the platform exposes for the screen rotation: \<open>screen.orientation.angle\<close> and
  \<open>window.orientation\<close>, each present only when it is a number.
\<close>

record screen =
  orientation_angle :: "real option"
  window_orientation :: "real option"

definition getScreenAngle :: "screen \<Rightarrow> real" where
  "getScreenAngle scr =
     (case orientation_angle scr of
        Some a \<Rightarrow> a
      | None \<Rightarrow> (case window_orientation scr of Some a \<Rightarrow> a | None \<Rightarrow> 0))"

text \<open>
  The optional second argument of \<open>updateHeading\<close>, in the three shapes the call sites
  use: absent, \<open>{absolute}\<close>, and \<open>{alpha, beta, gamma, absolute}\<close>.
\<close>

datatype extra =
    NoExtra
  | AbsoluteOnly bool
  | Angles "real option" "real option" "real option" bool

fun spread_extra :: "extra \<Rightarrow> DeviceOrientationState \<Rightarrow> DeviceOrientationState" where
  "spread_extra NoExtra s = s"
| "spread_extra (AbsoluteOnly a) s = s\<lparr>o_absolute := a\<rparr>"
| "spread_extra (Angles al be ga a) s =
     s\<lparr>o_alpha := al, o_beta := be, o_gamma := ga, o_absolute := a\<rparr>"

text \<open>Lines 107--113 of \<open>updateHeading\<close>: the exponential filter on the shortest arc.\<close>

definition smoothed :: "jsnum option \<Rightarrow> jsnum \<Rightarrow> jsnum" where
  "smoothed prev newHeading =
     (case prev of
        None \<Rightarrow> newHeading
      | Some p \<Rightarrow>
          nan_map2 (\<lambda>p h. normalizeAngle (p + 0.2 * shortestDelta p h)) p newHeading)"

definition updateHeading :: "jsnum \<Rightarrow> extra \<Rightarrow> hook \<Rightarrow> hook" where
  "updateHeading newHeading ex st =
     (let sm = smoothed (lastHeadingRef st) newHeading
      in st\<lparr>lastHeadingRef := Some sm,
             orientation := spread_extra ex
               ((orientation st)\<lparr>o_heading := Some sm, o_absolute := True,
                                 o_hasPermission := Some True, o_error := None\<rparr>)\<rparr>)"

definition stopTracking :: "hook \<Rightarrow> hook" where
  "stopTracking st =
     st\<lparr>isActive := False, lastHeadingRef := None,
        orientation := (orientation st)\<lparr>o_alpha := None, o_beta := None,
                                        o_gamma := None, o_heading := None\<rparr>\<rparr>"

subsection \<open>Provider 1: absolute orientation sensor\<close>

text \<open>
  \<open>Math.atan2\<close> is a built-in of the platform; the handlers take it as the parameter
  \<open>atan2\<close>.  A quaternion is the array the sensor delivers, \<open>None\<close> when it is absent.
\<close>

definition absoluteReading ::
  "(real \<Rightarrow> real \<Rightarrow> real) \<Rightarrow> screen \<Rightarrow> real list option \<Rightarrow> hook \<Rightarrow> hook" where
  "absoluteReading atan2 scr quaternion st =
     (case quaternion of
        None \<Rightarrow> st
      | Some q \<Rightarrow>
          if length q = 4 then
            let (qw, qx, qy, qz) =
                  (if \<bar>q ! 0\<bar> > 0.5 then (q ! 0, q ! 1, q ! 2, q ! 3)
                   else (q ! 3, q ! 0, q ! 1, q ! 2));
                yawRad = atan2 (2 * (qw * qz + qx * qy)) (1 - 2 * (qy * qy + qz * qz));
                heading = normalizeAngle (360 - (yawRad * 180) / pi);
                heading' = normalizeAngle (heading + getScreenAngle scr)
            in updateHeading (Num heading') (AbsoluteOnly True) st
          else st)"

subsection \<open>Provider 2: tilt-compensated magnetometer\<close>

definition computeTiltCompensatedHeading ::
  "(real \<Rightarrow> real \<Rightarrow> real) \<Rightarrow> screen \<Rightarrow> hook \<Rightarrow> hook" where
  "computeTiltCompensatedHeading atan2 scr st =
     (case (latestAccel st, latestMag st) of
        (Some a, Some m) \<Rightarrow>
          let h = sqrt (vx a * vx a + vy a * vy a + vz a * vz a);
              gNorm = (if h = 0 then 1 else h);
              ax = vx a / gNorm; ay = vy a / gNorm; az = vz a / gNorm;
              phi = atan2 ay az;
              theta = atan2 (- ax) (sqrt (ay * ay + az * az));
              sinPhi = sin phi; cosPhi = cos phi;
              sinTheta = sin theta; cosTheta = cos theta;
              Xh = vx m * cosTheta + vz m * sinTheta;
              Yh = vx m * sinPhi * sinTheta + vy m * cosPhi - vz m * sinPhi * cosTheta;
              heading = atan2 (- Yh) Xh * (180 / pi);
              heading' = normalizeAngle heading;
              heading'' = normalizeAngle (heading' + getScreenAngle scr)
          in updateHeading (Num heading'') NoExtra st
      | _ \<Rightarrow> st)"

definition accelReading ::
  "(real \<Rightarrow> real \<Rightarrow> real) \<Rightarrow> screen \<Rightarrow> Vec3 \<Rightarrow> hook \<Rightarrow> hook" where
  "accelReading atan2 scr v st =
     computeTiltCompensatedHeading atan2 scr (st\<lparr>latestAccel := Some v\<rparr>)"

definition magReading ::
  "(real \<Rightarrow> real \<Rightarrow> real) \<Rightarrow> screen \<Rightarrow> Vec3 \<Rightarrow> hook \<Rightarrow> hook" where
  "magReading atan2 scr v st =
     computeTiltCompensatedHeading atan2 scr (st\<lparr>latestMag := Some v\<rparr>)"

subsection \<open>Provider 3: orientation events\<close>

record DeviceOrientationEvent =
  ev_webkitCompassHeading :: "real option"
  ev_alpha :: "real option"
  ev_beta :: "real option"
  ev_gamma :: "real option"
  ev_absolute :: bool

text \<open>
  The local variable \<open>heading\<close> of \<open>handleOrientation\<close>: \<open>null\<close> or a number
  (\<open>NaN\<close> is a number, and is not \<open>null\<close>).
\<close>

datatype heading_var = Null | Value jsnum

text \<open>Lines 262--286: the heading before the screen correction.\<close>

definition eventHeading :: "DeviceOrientationEvent \<Rightarrow> heading_var" where
  "eventHeading event =
     (let heading =
            (case ev_webkitCompassHeading event of
               Some w \<Rightarrow> Value (Num w)
             | None \<Rightarrow>
                 (case (ev_absolute event, ev_alpha event, ev_beta event, ev_gamma event) of
                    (True, Some a, Some b, Some g) \<Rightarrow>
                      Value (computeCompassHeadingFromEuler a b g)
                  | _ \<Rightarrow> Null))
      in case (heading, ev_alpha event) of
           (Null, Some a) \<Rightarrow> Value (Num (js_rem (360 - a) 360))
         | _ \<Rightarrow> heading)"

text \<open>Line 290: the value handed to \<open>updateHeading\<close>.\<close>

definition correctedHeading :: "screen \<Rightarrow> DeviceOrientationEvent \<Rightarrow> heading_var" where
  "correctedHeading scr event =
     (case eventHeading event of
        Value h \<Rightarrow> Value (nan_map (\<lambda>h. normalizeAngle (h + getScreenAngle scr)) h)
      | Null \<Rightarrow> Null)"

text \<open>The handler: an event without a heading leaves the state as it is.\<close>

definition handleOrientation :: "screen \<Rightarrow> DeviceOrientationEvent \<Rightarrow> hook \<Rightarrow> hook" where
  "handleOrientation scr event st =
     (case correctedHeading scr event of
        Null \<Rightarrow> st
      | Value h \<Rightarrow>
          updateHeading h
            (Angles (ev_alpha event) (ev_beta event) (ev_gamma event) (ev_absolute event))
            st)"


text \<open>An emitted heading is present and lies in \<open>[0, 360)\<close>.\<close>

fun in_range :: "jsnum option \<Rightarrow> bool" where
  "in_range (Some (Num e)) = (0 \<le> e \<and> e < 360)"
| "in_range _ = False"

subsection \<open>Concrete inputs\<close>

text \<open>The state of the hook before any sample (\<open>useState\<close> and \<open>useRef\<close> initial values).\<close>

definition initialHook :: "bool \<Rightarrow> hook" where
  "initialHook supported =
     \<lparr>orientation = \<lparr>o_alpha = None, o_beta = None, o_gamma = None, o_heading = None,
                      o_absolute = False, o_isSupported = supported,
                      o_hasPermission = None, o_error = None\<rparr>,
      isActive = False, latestAccel = None, latestMag = None, lastHeadingRef = None\<rparr>"

definition landscape :: screen where
  "landscape = \<lparr>orientation_angle = Some 90, window_orientation = None\<rparr>"

text \<open>An event of iOS Safari, carrying only the vendor compass value.\<close>

definition vendorEvent :: "real \<Rightarrow> DeviceOrientationEvent" where
  "vendorEvent w = \<lparr>ev_webkitCompassHeading = Some w, ev_alpha = None, ev_beta = None,
                     ev_gamma = None, ev_absolute = False\<rparr>"

text \<open>An absolute event with the three Euler angles and no vendor value.\<close>

definition eulerEvent :: "real \<Rightarrow> real \<Rightarrow> real \<Rightarrow> DeviceOrientationEvent" where
  "eulerEvent a b g = \<lparr>ev_webkitCompassHeading = None, ev_alpha = Some a, ev_beta = Some b,
                     ev_gamma = Some g, ev_absolute = True\<rparr>"

section \<open>Geo query engine: services/overpass.ts\<close>

subsection \<open>Configuration\<close>

text \<open>
  The four thresholds read from the environment by \<open>__toInt\<close>, in milliseconds and
  requests, with the defaults of the source.
\<close>

record config =
  MIN_INTERVAL_MS :: int
  WINDOW_MS :: int
  MAX_REQS_PER_WINDOW :: nat
  BACKOFF_BASE_MS :: int

definition defaultConfig :: config where
  "defaultConfig =
     \<lparr>MIN_INTERVAL_MS = 2000, WINDOW_MS = 10000, MAX_REQS_PER_WINDOW = 3,
      BACKOFF_BASE_MS = 800\<rparr>"

definition CACHE_DURATION :: int where
  "CACHE_DURATION = 5 * 60 * 1000"


text \<open>\<open>Math.floor(Math.random() * n)\<close> for a draw \<open>u\<close> of \<open>Math.random\<close>.\<close>

definition random_below :: "real \<Rightarrow> int \<Rightarrow> int" where
  "random_below u n = \<lfloor>u * of_int n\<rfloor>"

subsection \<open>Rate limiter\<close>

text \<open>
  The global state of the limiter.  \<open>clock\<close> is the time of the last reading of
  \<open>Date.now()\<close> made by the limiter: time does not run backwards, so every later reading
  is this value plus a delay that is not negative.
\<close>

record limiter =
  clock :: int
  lastRequestTs :: int
  recentRequests :: "int list"

definition initialLimiter :: "int \<Rightarrow> limiter" where
  "initialLimiter t0 = \<lparr>clock = t0, lastRequestTs = 0, recentRequests = []\<rparr>"

text \<open>
  What the environment decides during one run of \<open>waitForRateLimit\<close>: the delay until
  the run starts, the two draws of \<open>Math.random\<close>, and the time that passes up to each
  later reading of the clock beyond what the code asked to sleep (a timer fires at the
  requested time or later).
\<close>

record timing =
  arrive :: nat
  u1 :: real
  tick1 :: nat
  tick2 :: nat
  u2 :: real
  tick3 :: nat

definition valid_draws :: "timing \<Rightarrow> bool" where
  "valid_draws e = (0 \<le> u1 e \<and> u1 e < 1 \<and> 0 \<le> u2 e \<and> u2 e < 1)"

definition waitForRateLimit :: "config \<Rightarrow> timing \<Rightarrow> limiter \<Rightarrow> limiter" where
  "waitForRateLimit cfg e s =
     (let now = clock s + int (arrive e);
          since = now - lastRequestTs s;
          t2 = (if since < MIN_INTERVAL_MS cfg
                then now + (MIN_INTERVAL_MS cfg - since + random_below (u1 e) 150)
                else now) + int (tick1 e);
          cutoff = t2 - WINDOW_MS cfg;
          recent = dropWhile (\<lambda>r. r < cutoff) (recentRequests s);
          t3 = t2 + int (tick2 e);
          t4 = (if length recent \<ge> MAX_REQS_PER_WINDOW cfg
                then (case recent of
                        [] \<Rightarrow> t3
                      | r0 # _ \<Rightarrow>
                          let waitMs = WINDOW_MS cfg - (t3 - r0) + random_below (u2 e) 150
                          in if waitMs > 0 then t3 + waitMs else t3)
                else t2);
          ts = t4 + int (tick3 e)
      in \<lparr>clock = ts, lastRequestTs = ts, recentRequests = recent @ [ts]\<rparr>)"

text \<open>
  \<open>enqueueRateLimitedSlot\<close> chains every acquisition behind the previous one, so the
  runs of \<open>waitForRateLimit\<close> never overlap and happen in arrival order.  \<open>slots\<close> is
  the list of the timestamps granted to a sequence of acquisitions, oldest first.
\<close>

fun slots :: "config \<Rightarrow> limiter \<Rightarrow> timing list \<Rightarrow> int list" where
  "slots cfg s [] = []"
| "slots cfg s (e # es) =
     (let s' = waitForRateLimit cfg e s in lastRequestTs s' # slots cfg s' es)"

subsection \<open>Endpoint failover\<close>

datatype error =
    TooManyRequests nat
  | ApiError nat
  | Thrown string
  | AllFailed

text \<open>
  The decoded envelope of the service, and what one physical request yields: the
  \<open>fetch\<close> promise rejects, or it delivers a response with its \<open>ok\<close> flag, its status
  and the outcome of \<open>response.json()\<close>.
\<close>

datatype element_type = Node | Way | Relation

record LatLon =
  c_lat :: real
  c_lon :: real

record OverpassElement =
  el_type :: element_type
  el_id :: int
  el_lat :: "real option"
  el_lon :: "real option"
  el_center :: "LatLon option"
  el_tags :: "(string \<rightharpoonup> string) option"

record OverpassResponse =
  elements :: "OverpassElement list"









subsection \<open>Response mapping\<close>

datatype EstablishmentType = Bar | WineCellar | Nightclub | Supermarket | Restaurant | LiquorStore

fun type_name :: "EstablishmentType \<Rightarrow> string" where
  "type_name Bar = ''bar''"
| "type_name WineCellar = ''wine-cellar''"
| "type_name Nightclub = ''nightclub''"
| "type_name Supermarket = ''supermarket''"
| "type_name Restaurant = ''restaurant''"
| "type_name LiquorStore = ''liquor-store''"

text \<open>
  The identifier \<open>`${element.type}-${element.id}`\<close> is kept as the pair of its two
  parts.
\<close>

record Establishment =
  e_id :: "element_type \<times> int"
  e_name :: string
  e_type :: EstablishmentType
  e_lat :: real
  e_lng :: real
  e_isOpen :: bool
  e_city :: "string option"
  e_tags :: "string \<rightharpoonup> string"

text \<open>
  Truthiness of JavaScript, as the source relies on it: an absent property, the number
  zero and the empty string are falsy.
\<close>

definition truthy_number :: "real option \<Rightarrow> bool" where
  "truthy_number x = (case x of None \<Rightarrow> False | Some v \<Rightarrow> v \<noteq> 0)"

definition truthy_string :: "string option \<Rightarrow> bool" where
  "truthy_string x = (case x of None \<Rightarrow> False | Some v \<Rightarrow> v \<noteq> [])"

definition mapOsmTagsToType :: "(string \<rightharpoonup> string) \<Rightarrow> EstablishmentType option" where
  "mapOsmTagsToType tags =
     (if tags ''amenity'' = Some ''bar'' \<or> tags ''amenity'' = Some ''pub'' then Some Bar
      else if tags ''amenity'' = Some ''nightclub'' then Some Nightclub
      else if tags ''shop'' = Some ''wine'' then Some WineCellar
      else if tags ''shop'' = Some ''alcohol'' \<or> tags ''shop'' = Some ''beverages''
        then Some LiquorStore
      else if tags ''amenity'' = Some ''restaurant'' then Some Restaurant
      else if tags ''shop'' = Some ''supermarket'' \<or> tags ''shop'' = Some ''convenience''
        then Some Supermarket
      else None)"

definition isEstablishmentOpen :: "(string \<rightharpoonup> string) \<Rightarrow> bool" where
  "isEstablishmentOpen tags =
     (if \<not> truthy_string (tags ''opening_hours'') then True
      else if tags ''opening_hours'' = Some ''24/7'' then True
      else True)"

text \<open>The callback of \<open>data.elements.map\<close> in \<open>queryOverpass\<close>; \<open>None\<close> is its \<open>null\<close>.\<close>

definition mapElement :: "OverpassElement \<Rightarrow> Establishment option" where
  "mapElement element =
     (case el_tags element of
        None \<Rightarrow> None
      | Some tags \<Rightarrow>
          (case mapOsmTagsToType tags of
             None \<Rightarrow> None
           | Some ty \<Rightarrow>
               (let coordinates =
                      (if el_type element = Node \<and> truthy_number (el_lat element)
                          \<and> truthy_number (el_lon element)
                       then Some (the (el_lat element), the (el_lon element))
                       else (case el_center element of
                               Some c \<Rightarrow> Some (c_lat c, c_lon c)
                             | None \<Rightarrow> None))
                in case coordinates of
                     None \<Rightarrow> None
                   | Some (latitude, longitude) \<Rightarrow>
                       Some \<lparr>e_id = (el_type element, el_id element),
                             e_name = (if truthy_string (tags ''name'') then the (tags ''name'')
                                       else type_name ty @ '' sans nom''),
                             e_type = ty,
                             e_lat = latitude,
                             e_lng = longitude,
                             e_isOpen = isEstablishmentOpen tags,
                             e_city = tags ''addr:city'',
                             e_tags = tags\<rparr>)))"

definition toEstablishments :: "OverpassResponse \<Rightarrow> Establishment list" where
  "toEstablishments data = List.map_filter mapElement (elements data)"

subsection \<open>Cache key\<close>

datatype searchMode = Proximity | City

record cityData =
  cd_name :: string
  cd_boundingbox :: "string list option"

record params =
  p_lat :: real
  p_lng :: real
  p_radius :: real
  p_types :: "EstablishmentType list"
  p_searchMode :: searchMode
  p_cityData :: "cityData option"

text \<open>
  The key is a template string of the source; here it is the tuple of the parts that the
  template joins with colons.  \<open>Math.round\<close> rounds half up.
\<close>

datatype cache_key =
    CityKey string string
  | ProximityKey real real real string

fun join_comma :: "string list \<Rightarrow> string" where
  "join_comma [] = []"
| "join_comma [x] = x"
| "join_comma (x # y # ys) = x @ '','' @ join_comma (y # ys)"

definition math_round :: "real \<Rightarrow> real" where
  "math_round x = of_int \<lfloor>x + 1 / 2\<rfloor>"

definition getCacheKey ::
  "real \<Rightarrow> real \<Rightarrow> real \<Rightarrow> EstablishmentType list \<Rightarrow> searchMode \<Rightarrow> string option \<Rightarrow> cache_key" where
  "getCacheKey lat lng radius types mode city =
     (let typesStr = join_comma (sort (map type_name types))
      in if mode = City \<and> truthy_string city then CityKey (the city) typesStr
         else
           let roundedLat = math_round (lat * 100) / 100;
               roundedLng = math_round (lng * 100) / 100
           in ProximityKey roundedLat roundedLng radius typesStr)"

definition key_of :: "params \<Rightarrow> cache_key" where
  "key_of p =
     getCacheKey (p_lat p) (p_lng p) (p_radius p) (p_types p) (p_searchMode p)
       (map_option cd_name (p_cityData p))"

subsection \<open>Cache and in-flight requests\<close>

record CacheEntry =
  ce_data :: "Establishment list"
  ce_timestamp :: int

text \<open>
  The module state of the query engine.  A promise is known by a number; \<open>promises\<close>
  holds the outcome of the promises that have settled, and \<open>fetches\<close> lists the calls
  of \<open>fetchWithFallback\<close> made so far, each with its promise and its cache key.
\<close>

record engine =
  cache :: "cache_key \<rightharpoonup> CacheEntry"
  inFlightRequests :: "cache_key \<rightharpoonup> nat"
  promises :: "nat \<rightharpoonup> error + Establishment list"
  next_promise :: nat
  fetches :: "(nat \<times> cache_key) list"

definition initialEngine :: engine where
  "initialEngine =
     \<lparr>cache = Map.empty, inFlightRequests = Map.empty, promises = Map.empty,
      next_promise = 0, fetches = []\<rparr>"

definition cleanExpiredCache :: "int \<Rightarrow> (cache_key \<rightharpoonup> CacheEntry) \<Rightarrow> (cache_key \<rightharpoonup> CacheEntry)" where
  "cleanExpiredCache now c =
     (\<lambda>k. case c k of
             None \<Rightarrow> None
           | Some entry \<Rightarrow> if now - ce_timestamp entry > CACHE_DURATION then None else Some entry)"

definition clearCache :: "engine \<Rightarrow> engine" where
  "clearCache s = s\<lparr>cache := Map.empty\<rparr>"

text \<open>What a caller of \<open>queryOverpass\<close> gets: a list at once, or a promise to await.\<close>

datatype answer = Returned "Establishment list" | Awaits nat

text \<open>
  \<open>queryOverpass\<close> up to its first suspension, which JavaScript runs without
  interruption: the cache test at the clock reading \<open>now\<close>, the subscription to a
  pending operation, or the purge (at the reading \<open>now'\<close>) and the start of a new
  operation, which is recorded in \<open>inFlightRequests\<close>.  The text of the query
  (\<open>buildOverpassQuery\<close>, \<open>buildOverpassQueryByCity\<close>) is a function of the
  parameters and is left out.
\<close>

definition queryOverpass :: "params \<Rightarrow> int \<Rightarrow> int \<Rightarrow> engine \<Rightarrow> answer \<times> engine" where
  "queryOverpass p now now' s =
     (let cacheKey = key_of p;
          hit = (case cache s cacheKey of
                   Some cached \<Rightarrow>
                     if now - ce_timestamp cached < CACHE_DURATION then Some (ce_data cached)
                     else None
                 | None \<Rightarrow> None)
      in case hit of
           Some d \<Rightarrow> (Returned d, s)
         | None \<Rightarrow>
             (case inFlightRequests s cacheKey of
                Some inFlight \<Rightarrow> (Awaits inFlight, s)
              | None \<Rightarrow>
                  (let promise = next_promise s
                   in (Awaits promise,
                       s\<lparr>cache := cleanExpiredCache now' (cache s),
                         inFlightRequests := (inFlightRequests s)(cacheKey \<mapsto> promise),
                         next_promise := promise + 1,
                         fetches := fetches s @ [(promise, cacheKey)]\<rparr>))))"

text \<open>
  The pending operation of \<open>cacheKey\<close> settles with the outcome \<open>result\<close> of
  \<open>fetchWithFallback\<close> at the clock reading \<open>now\<close>: on success the elements are mapped
  and cached, and the promise resolves; on failure it rejects.  Only an operation that is
  pending can settle, and it settles once.
\<close>

definition fetchSettled :: "cache_key \<Rightarrow> error + OverpassResponse \<Rightarrow> int \<Rightarrow> engine \<Rightarrow> engine" where
  "fetchSettled cacheKey result now s =
     (case inFlightRequests s cacheKey of
        None \<Rightarrow> s
      | Some promise \<Rightarrow>
          (case promises s promise of
             Some _ \<Rightarrow> s
           | None \<Rightarrow>
               (case result of
                  Inr data \<Rightarrow>
                    (let establishments = toEstablishments data
                     in s\<lparr>cache := (cache s)(cacheKey \<mapsto>
                                      \<lparr>ce_data = establishments, ce_timestamp = now\<rparr>),
                           promises := (promises s)(promise \<mapsto> Inr establishments)\<rparr>)
                | Inl err \<Rightarrow> s\<lparr>promises := (promises s)(promise \<mapsto> Inl err)\<rparr>)))"

text \<open>
  The \<open>finally\<close> block of the caller that started the operation, run when its promise
  has settled.
\<close>

definition leaderResumed :: "cache_key \<Rightarrow> engine \<Rightarrow> engine" where
  "leaderResumed cacheKey s =
     (case inFlightRequests s cacheKey of
        None \<Rightarrow> s
      | Some promise \<Rightarrow>
          (case promises s promise of
             None \<Rightarrow> s
           | Some _ \<Rightarrow> s\<lparr>inFlightRequests := (inFlightRequests s)(cacheKey := None)\<rparr>))"

text \<open>A history of the engine: calls, settlements and resumptions, in the order they run.\<close>

datatype event =
    Call params int int
  | Settled cache_key "error + OverpassResponse" int
  | Resumed cache_key

fun step :: "event \<Rightarrow> engine \<Rightarrow> engine" where
  "step (Call p now now') s = snd (queryOverpass p now now' s)"
| "step (Settled k result now) s = fetchSettled k result now s"
| "step (Resumed k) s = leaderResumed k s"

fun run :: "event list \<Rightarrow> engine \<Rightarrow> engine" where
  "run [] s = s"
| "run (ev # evs) s = run evs (step ev s)"

text \<open>The cache key an event is about.\<close>

fun event_key :: "event \<Rightarrow> cache_key" where
  "event_key (Call p now now') = key_of p"
| "event_key (Settled k result now) = k"
| "event_key (Resumed k) = k"

text \<open>The answers given, in order, to the calls of a history whose key is \<open>k\<close>.\<close>

fun answers_for :: "cache_key \<Rightarrow> event list \<Rightarrow> engine \<Rightarrow> answer list" where
  "answers_for k [] s = []"
| "answers_for k (ev # evs) s =
     (case ev of
        Call p now now' \<Rightarrow> (if key_of p = k then [fst (queryOverpass p now now' s)] else [])
      | _ \<Rightarrow> [])
     @ answers_for k evs (step ev s)"

section \<open>Notions used by the claims\<close>

subsection \<open>Rate limiter\<close>

text \<open>
  A list of granted timestamps, newest first, is \<open>spaced\<close> when every grant comes at
  least the minimum interval after all earlier ones, and at least a window length after
  every grant that lies \<open>MAX_REQS_PER_WINDOW\<close> or more places before it.
\<close>

fun spaced :: "config \<Rightarrow> int list \<Rightarrow> bool" where
  "spaced cfg [] = True"
| "spaced cfg (g # H) =
     ((\<forall>x\<in>set H. x + MIN_INTERVAL_MS cfg \<le> g)
      \<and> (\<forall>x\<in>set (drop (MAX_REQS_PER_WINDOW cfg - 1) H). x + WINDOW_MS cfg \<le> g)
      \<and> spaced cfg H)"

text \<open>
  What holds of the limiter after the grants \<open>H\<close> (newest first): the window array
  holds the newest grants, oldest first; the grants pruned from it left the window before
  the last reading of the clock; the array has at most one entry more than the maximum,
  and then its oldest entry is a window length older than its newest.
\<close>

definition limiter_inv :: "config \<Rightarrow> limiter \<Rightarrow> int list \<Rightarrow> bool" where
  "limiter_inv cfg s H =
     (\<exists>R Old. H = R @ Old \<and> recentRequests s = rev R
        \<and> (\<forall>g\<in>set Old. g + WINDOW_MS cfg \<le> clock s)
        \<and> length R \<le> MAX_REQS_PER_WINDOW cfg + 1
        \<and> (length R = MAX_REQS_PER_WINDOW cfg + 1 \<longrightarrow> last R + WINDOW_MS cfg \<le> hd R)
        \<and> (\<forall>g\<in>set H. g \<le> lastRequestTs s)
        \<and> spaced cfg H)"

subsection \<open>Query engine\<close>

text \<open>No unexpired entry for the key \<open>k\<close> at the clock reading \<open>now\<close>.\<close>

definition stale :: "engine \<Rightarrow> cache_key \<Rightarrow> int \<Rightarrow> bool" where
  "stale s k now =
     (case cache s k of
        None \<Rightarrow> True
      | Some entry \<Rightarrow> \<not> now - ce_timestamp entry < CACHE_DURATION)"

text \<open>A call whose parameters yield the key \<open>k\<close>, made while no unexpired entry exists.\<close>

fun call_on :: "engine \<Rightarrow> cache_key \<Rightarrow> event \<Rightarrow> bool" where
  "call_on s k (Call p now now') = (key_of p = k \<and> stale s k now)"
| "call_on s k _ = False"

text \<open>
  An event that happens less than five minutes after the clock reading \<open>T\<close>: only the
  clock readings of calls matter (the purge of a call removes entries older than five
  minutes).
\<close>

fun in_ttl :: "int \<Rightarrow> event \<Rightarrow> bool" where
  "in_ttl T (Call p now now') = (now - T < CACHE_DURATION \<and> now' - T \<le> CACHE_DURATION)"
| "in_ttl T _ = True"

text \<open>The outcome of the promise of an operation whose fetch ended with \<open>result\<close>.\<close>

definition settled_as :: "error + OverpassResponse \<Rightarrow> error + Establishment list" where
  "settled_as result = (case result of Inl err \<Rightarrow> Inl err | Inr data \<Rightarrow> Inr (toEstablishments data))"

text \<open>The fetch operations started so far for the key \<open>k\<close>.\<close>

definition fetches_for :: "cache_key \<Rightarrow> engine \<Rightarrow> (nat \<times> cache_key) list" where
  "fetches_for k s = filter (\<lambda>f. snd f = k) (fetches s)"

text \<open>
  Promise numbers not yet handed out are not in use, and two keys never share a pending
  promise.
\<close>

definition numbered :: "engine \<Rightarrow> bool" where
  "numbered s =
     ((\<forall>n. next_promise s \<le> n \<longrightarrow> promises s n = None)
      \<and> (\<forall>k pr. inFlightRequests s k = Some pr \<longrightarrow> pr < next_promise s)
      \<and> (\<forall>k1 k2 pr. inFlightRequests s k1 = Some pr \<and> inFlightRequests s k2 = Some pr
            \<longrightarrow> k1 = k2))"

subsection \<open>Concrete inputs\<close>

text \<open>Five acquisitions made at once, with zero jitter and timers that fire on time.\<close>

definition immediate :: timing where
  "immediate = \<lparr>arrive = 0, u1 = 0, tick1 = 0, tick2 = 0, u2 = 0, tick3 = 0\<rparr>"



text \<open>A pub mapped as a node at the given latitude and longitude.\<close>

definition pubTags :: "string \<rightharpoonup> string" where
  "pubTags = [''amenity'' \<mapsto> ''pub'', ''name'' \<mapsto> ''The Meridian'']"

definition pubNode :: "real \<Rightarrow> real \<Rightarrow> OverpassElement" where
  "pubNode la lo = \<lparr>el_type = Node, el_id = 42, el_lat = Some la, el_lon = Some lo,
                    el_center = None, el_tags = Some pubTags\<rparr>"

text \<open>
  Two proximity searches that round to the same grid cell, a response with one pub, and
  the engine after the first search was answered from the network at time 1000.
\<close>

definition paris :: params where
  "paris = \<lparr>p_lat = 48.8566, p_lng = 2.3522, p_radius = 5, p_types = [Bar],
            p_searchMode = Proximity, p_cityData = None\<rparr>"

definition nearby :: params where
  "nearby = \<lparr>p_lat = 48.8601, p_lng = 2.3489, p_radius = 5, p_types = [Bar],
             p_searchMode = Proximity, p_cityData = None\<rparr>"

definition onePub :: OverpassResponse where
  "onePub = \<lparr>elements = [pubNode 48.8570 2.3530]\<rparr>"

definition warm :: engine where
  "warm = run [Call paris 0 0, Settled (key_of paris) (Inr onePub) 1000, Resumed (key_of paris)]
            initialEngine"

text \<open>A search elsewhere, and four calls made before any of them is answered.\<close>

definition lyon :: params where
  "lyon = \<lparr>p_lat = 45.7640, p_lng = 4.8357, p_radius = 5, p_types = [Bar],
           p_searchMode = Proximity, p_cityData = None\<rparr>"

definition burst :: "event list" where
  "burst = [Call paris 0 0, Call lyon 3 3, Call nearby 5 5, Call paris 9 9]"

section \<open>Lemmas about the heading estimator\<close>

lemma spec_mod_range: "0 \<le> spec_mod x 360 \<and> spec_mod x 360 < 360"
  unfolding spec_mod_def by simp linarith

lemma js_rem_nonneg: "0 \<le> x \<Longrightarrow> js_rem x 360 = spec_mod x 360"
  by (simp add: js_rem_def js_trunc_def spec_mod_def)

lemma js_rem_neg_range: "x < 0 \<Longrightarrow> - 360 < js_rem x 360 \<and> js_rem x 360 \<le> 0"
  unfolding js_rem_def js_trunc_def by simp linarith

lemma normalizeAngle_range: "0 \<le> normalizeAngle x \<and> normalizeAngle x < 360"
proof (cases "0 \<le> x")
  case True
  then show ?thesis
    using spec_mod_range [of x] by (simp add: normalizeAngle_def Let_def js_rem_nonneg)
next
  case False
  then show ?thesis
    using js_rem_neg_range [of x] by (auto simp: normalizeAngle_def Let_def)
qed

lemma normalizeAngle_cong: "\<exists>k::int. normalizeAngle x = x + 360 * of_int k"
proof -
  have "\<exists>k::int. js_rem x 360 = x + 360 * of_int k"
    unfolding js_rem_def by (rule exI [of _ "- js_trunc (x / 360)"]) simp
  then obtain k :: int where k: "js_rem x 360 = x + 360 * of_int k" ..
  show ?thesis
  proof (cases "js_rem x 360 < 0")
    case True
    then have "normalizeAngle x = x + 360 * of_int (k + 1)"
      using k by (simp add: normalizeAngle_def Let_def)
    then show ?thesis ..
  next
    case False
    then have "normalizeAngle x = x + 360 * of_int k"
      using k by (simp add: normalizeAngle_def Let_def)
    then show ?thesis ..
  qed
qed

lemma normalizeAngle_spec_mod: "normalizeAngle x = spec_mod x 360"
proof -
  obtain k :: int where k: "normalizeAngle x = x + 360 * of_int k"
    using normalizeAngle_cong by blast
  have r: "0 \<le> normalizeAngle x \<and> normalizeAngle x < 360" by (rule normalizeAngle_range)
  have "\<lfloor>x / 360\<rfloor> = - k"
    using k r by (intro floor_unique) (simp_all add: field_simps)
  then show ?thesis using k by (simp add: spec_mod_def)
qed

lemma shortestDelta_spec:
  assumes "0 \<le> p" "p < 360" "0 \<le> h" "h < 360"
  shows "shortestDelta p h = spec_mod (h - p + 540) 360 - 180"
  using assms by (simp add: shortestDelta_def js_rem_nonneg)

lemma shortestDelta_range:
  assumes "0 \<le> p" "p < 360" "0 \<le> h" "h < 360"
  shows "- 180 \<le> shortestDelta p h \<and> shortestDelta p h < 180"
  using spec_mod_range [of "h - p + 540"] shortestDelta_spec [OF assms] by simp

lemma shortestDelta_cong: "\<exists>k::int. h - p = shortestDelta p h + 360 * of_int k"
  unfolding shortestDelta_def js_rem_def
  by (rule exI [of _ "js_trunc ((h - p + 540) / 360) - 1"]) simp



lemma smoothed_Num:
  "smoothed (Some (Num p)) (Num h) = Num (normalizeAngle (p + 0.2 * shortestDelta p h))"
  by (simp add: smoothed_def)

lemma smoothed_None: "smoothed None h = h"
  by (simp add: smoothed_def)

lemma smoothed_NaN: "smoothed (Some NaN) h = NaN" "smoothed (Some p) NaN = NaN"
  by (cases h; simp add: smoothed_def) (cases p; simp add: smoothed_def)

lemma updateHeading_heading [simp]:
  "o_heading (orientation (updateHeading h ex st)) = Some (smoothed (lastHeadingRef st) h)"
  by (cases ex) (simp_all add: updateHeading_def Let_def)

lemma updateHeading_last [simp]:
  "lastHeadingRef (updateHeading h ex st) = Some (smoothed (lastHeadingRef st) h)"
  by (simp add: updateHeading_def Let_def)

lemma smoothed_range:
  assumes "prev \<noteq> Some NaN" "0 \<le> h" "h < 360"
  shows "in_range (Some (smoothed prev (Num h)))"
proof (cases prev)
  case None
  then show ?thesis using assms by (simp add: smoothed_None)
next
  case (Some v)
  then obtain p where "v = Num p" using assms(1) by (cases v) auto
  then show ?thesis using Some normalizeAngle_range by (simp add: smoothed_Num)
qed

lemma update_in_range:
  "lastHeadingRef st \<noteq> Some NaN \<Longrightarrow>
   in_range (o_heading (orientation (updateHeading (Num (normalizeAngle raw)) ex st)))"
  using smoothed_range [of "lastHeadingRef st" "normalizeAngle raw"] normalizeAngle_range [of raw]
  by simp

lemma shortest_is_shortest:
  assumes r: "- 180 \<le> (d::real)" "d < 180" and c: "h - p = d + 360 * of_int (k0::int)"
  shows "\<bar>d\<bar> \<le> \<bar>h - p + 360 * of_int (k::int)\<bar>"
proof -
  have e: "h - p + 360 * of_int k = d + 360 * of_int (k0 + k)" using c by simp
  consider "k0 + k = 0" | "k0 + k \<ge> 1" | "k0 + k \<le> - 1" by linarith
  then show ?thesis
  proof cases
    case 1 then show ?thesis using e by simp
  next
    case 2
    then have "real_of_int (k0 + k) \<ge> 1" by linarith
    then show ?thesis using e r by (simp add: abs_if)
  next
    case 3
    then have "real_of_int (k0 + k) \<le> - 1" by linarith
    then show ?thesis using e r by (simp add: abs_if)
  qed
qed

lemma sin_135: "sin (3 * pi / 4) = sqrt 2 / 2"
proof -
  have "sin (3 * pi / 4) = sin (pi - pi / 4)" by simp
  also have "\<dots> = sin (pi / 4)" by (rule sin_pi_minus)
  finally show ?thesis by (simp add: sin_45)
qed

lemma cos_135: "cos (3 * pi / 4) = - (sqrt 2 / 2)"
proof -
  have "cos (3 * pi / 4) = cos (pi - pi / 4)" by simp
  also have "\<dots> = - cos (pi / 4)" by (rule cos_pi_minus)
  finally show ?thesis by (simp add: cos_45)
qed

lemma rA_135: "rA 135 90 0 = - (sqrt 2 / 2)"
  by (simp add: rA_def sin_135 cos_135)

lemma rB_135: "rB 135 90 0 = - (sqrt 2 / 2)"
  by (simp add: rB_def sin_135 cos_135)

lemma rA_45: "rA 45 90 0 = - (sqrt 2 / 2)"
  by (simp add: rA_def sin_45 cos_45)

lemma rB_45: "rB 45 90 0 = sqrt 2 / 2"
  by (simp add: rB_def sin_45 cos_45)

lemma euler_135: "computeCompassHeadingFromEuler 135 90 0 = Num 225"
  unfolding computeCompassHeadingFromEuler_def Let_def rA_135 rB_135
  by (simp add: js_div_def arctan_one)

lemma euler_45: "computeCompassHeadingFromEuler 45 90 0 = Num 315"
  unfolding computeCompassHeadingFromEuler_def Let_def rA_45 rB_45
  by (simp add: js_div_def arctan_one arctan_minus)

lemma spec_135: "spec_eulerHeading 135 90 0 = Num 405"
  unfolding spec_eulerHeading_def Let_def rA_135 rB_135
  by (simp add: js_div_def arctan_one)

lemma rA_flat: "rA a 0 0 = 0" by (simp add: rA_def)

lemma rB_flat: "rB a 0 0 = 0" by (simp add: rB_def)

lemma euler_flat: "computeCompassHeadingFromEuler a 0 0 = NaN"
  by (simp add: computeCompassHeadingFromEuler_def rA_flat rB_flat js_div_def)

lemma rA_edge: "rA 0 0 90 = - 1" by (simp add: rA_def)

lemma rB_edge: "rB 0 0 90 = 0" by (simp add: rB_def)

lemma euler_edge: "computeCompassHeadingFromEuler 0 0 90 = Num 270"
  by (simp add: computeCompassHeadingFromEuler_def rA_edge rB_edge js_div_def)

lemma euler_90_90_0: "computeCompassHeadingFromEuler 90 90 0 = Num 270"
  by (simp add: computeCompassHeadingFromEuler_def rA_def rB_def js_div_def)

lemma absoluteReading_in_range:
  "length q = 4 \<Longrightarrow> lastHeadingRef st \<noteq> Some NaN \<Longrightarrow>
   in_range (o_heading (orientation (absoluteReading atan2 scr (Some q) st)))"
  unfolding absoluteReading_def
  by (simp only: option.case if_True Let_def split: prod.split if_split)
     (use update_in_range in blast)

lemma tilt_in_range:
  assumes "latestAccel st = Some a" "latestMag st = Some m" "lastHeadingRef st \<noteq> Some NaN"
  shows "in_range (o_heading (orientation (computeTiltCompensatedHeading atan2 scr st)))"
  unfolding computeTiltCompensatedHeading_def assms(1,2)
  by (simp only: option.case prod.case Let_def) (rule update_in_range [OF assms(3)])

lemma handleOrientation_in_range:
  assumes "eventHeading ev = Value (Num h)" "lastHeadingRef st \<noteq> Some NaN"
  shows "in_range (o_heading (orientation (handleOrientation scr ev st)))"
  unfolding handleOrientation_def correctedHeading_def assms(1)
  using update_in_range [OF assms(2)] by (simp del: updateHeading_heading in_range.simps)

section \<open>Claims about the heading estimator\<close>

text \<open>
  C6 (heading smoothing).  With a previous smoothed heading \<open>p\<close> and a new heading \<open>h\<close>,
  both in \<open>[0, 360)\<close> as every call site of \<open>updateHeading\<close> delivers them, the emitted
  heading is \<open>(p + 0.2 * delta) mod 360\<close> with \<open>delta = ((h - p + 540) mod 360) - 180\<close>,
  where \<open>mod\<close> is the mathematical remainder, so the sum is wrapped into \<open>[0, 360)\<close>.
  This \<open>delta\<close> is the one the code computes; it lies in \<open>[-180, 180)\<close>, is congruent to
  \<open>h - p\<close> modulo 360 and is no longer than any other representative of \<open>h - p\<close>: it is
  the shortest angular delta.  After \<open>stopTracking\<close> there is no previous value, and the
  next sample is emitted unsmoothed.  The witness is the example of the specification:
  from 350 degrees towards 10 degrees the delta is +20 (through 0/360), and the emitted
  heading is 354.
\<close>

theorem heading_smoothing:
  assumes "0 \<le> p" "p < 360" "0 \<le> h" "h < 360" and "lastHeadingRef st = Some (Num p)"
  shows "(let delta = spec_mod (h - p + 540) 360 - 180;
              st' = updateHeading (Num h) ex st
          in shortestDelta p h = delta
           \<and> o_heading (orientation st') = Some (Num (spec_mod (p + 0.2 * delta) 360))
           \<and> lastHeadingRef st' = Some (Num (spec_mod (p + 0.2 * delta) 360))
           \<and> - 180 \<le> delta \<and> delta < 180
           \<and> (\<exists>k::int. h - p = delta + 360 * of_int k)
           \<and> (\<forall>k::int. \<bar>delta\<bar> \<le> \<bar>h - p + 360 * of_int k\<bar>))
       \<and> lastHeadingRef (stopTracking st) = None
       \<and> o_heading (orientation (updateHeading (Num h) ex (stopTracking st))) = Some (Num h)"
proof -
  have s: "shortestDelta p h = spec_mod (h - p + 540) 360 - 180"
    using assms(1-4) by (rule shortestDelta_spec)
  have r: "- 180 \<le> shortestDelta p h \<and> shortestDelta p h < 180"
    using assms(1-4) by (rule shortestDelta_range)
  obtain k0 :: int where k0: "h - p = shortestDelta p h + 360 * of_int k0"
    using shortestDelta_cong by blast
  have m: "\<forall>k::int. \<bar>shortestDelta p h\<bar> \<le> \<bar>h - p + 360 * of_int k\<bar>"
    using shortest_is_shortest [OF _ _ k0] r by blast
  have f: "lastHeadingRef (stopTracking st) = None"
    by (simp add: stopTracking_def)
  have e: "smoothed (Some (Num p)) (Num h) = Num (spec_mod (p + 0.2 * shortestDelta p h) 360)"
    by (simp add: smoothed_Num normalizeAngle_spec_mod)
  show ?thesis
    unfolding Let_def s [symmetric]
    using r k0 m f e assms(5) by (auto simp: smoothed_None)
qed

theorem heading_smoothing_witness:
  "shortestDelta 350 10 = 20
   \<and> o_heading (orientation
        (updateHeading (Num 10) NoExtra ((initialHook True)\<lparr>lastHeadingRef := Some (Num 350)\<rparr>)))
       = Some (Num 354)
   \<and> o_heading (orientation
        (updateHeading (Num 10) NoExtra
           (stopTracking ((initialHook True)\<lparr>lastHeadingRef := Some (Num 350)\<rparr>))))
       = Some (Num 10)"
proof -
  let ?st = "(initialHook True)\<lparr>lastHeadingRef := Some (Num 350)\<rparr>"
  have h: "(0::real) \<le> 350" "(350::real) < 360" "(0::real) \<le> 10" "(10::real) < 360"
    "lastHeadingRef ?st = Some (Num 350)" by simp_all
  have d: "spec_mod (10 - 350 + 540) 360 - 180 = 20" by code_simp
  have v: "spec_mod (350 + 0.2 * 20) 360 = 354" by code_simp
  from heading_smoothing [OF h, of NoExtra] show ?thesis
    unfolding Let_def d v by (simp add: smoothed_None)
qed

text \<open>
  C7 (heading normalization) fails on the code.  An orientation event that reports an
  absolute frame while the device lies flat (\<open>beta = gamma = 0\<close>, here with
  \<open>alpha = 30\<close>) has \<open>rA = rB = 0\<close>; the Euler conversion divides zero by zero, and the
  heading is \<open>NaN\<close>.  \<open>NaN\<close> is not \<open>null\<close>, so the fallback on \<open>alpha\<close> that the
  source announces (``Fallback below'') is skipped, \<open>normalizeAngle\<close> leaves \<open>NaN\<close> as it
  is, and the handler emits \<open>NaN\<close>, which is not in \<open>[0, 360)\<close>.  The value stays in
  \<open>lastHeadingRef\<close>: the next sample, a vendor compass value of 100 degrees, is smoothed
  against it and is emitted as \<open>NaN\<close> too.
\<close>

theorem flat_device_heading_nan:
  "rA 30 0 0 = 0 \<and> rB 30 0 0 = 0
   \<and> eventHeading (eulerEvent 30 0 0) = Value NaN
   \<and> o_heading (orientation (handleOrientation landscape (eulerEvent 30 0 0) (initialHook True)))
       = Some NaN
   \<and> \<not> in_range
         (o_heading (orientation
            (handleOrientation landscape (eulerEvent 30 0 0) (initialHook True))))
   \<and> o_heading (orientation
        (handleOrientation landscape (vendorEvent 100)
           (handleOrientation landscape (eulerEvent 30 0 0) (initialHook True))))
       = Some NaN"
proof -
  have e: "eventHeading (eulerEvent 30 0 0) = Value NaN"
    by (simp add: eventHeading_def eulerEvent_def euler_flat)
  have c: "correctedHeading landscape (eulerEvent 30 0 0) = Value NaN"
    by (simp add: correctedHeading_def e)
  have 1: "lastHeadingRef (handleOrientation landscape (eulerEvent 30 0 0) (initialHook True))
           = Some NaN"
    by (simp add: handleOrientation_def c initialHook_def smoothed_None)
  have 2: "o_heading (orientation
              (handleOrientation landscape (eulerEvent 30 0 0) (initialHook True))) = Some NaN"
    by (simp add: handleOrientation_def c initialHook_def smoothed_None)
  have v: "correctedHeading landscape (vendorEvent 100) = Value (Num (normalizeAngle 190))"
    by (simp add: correctedHeading_def eventHeading_def vendorEvent_def getScreenAngle_def
        landscape_def)
  have 3: "o_heading (orientation
        (handleOrientation landscape (vendorEvent 100)
           (handleOrientation landscape (eulerEvent 30 0 0) (initialHook True)))) = Some NaN"
    unfolding handleOrientation_def [of landscape "vendorEvent 100"] v
    by (simp add: 1 smoothed_NaN)
  show ?thesis
    unfolding 2 3 by (simp add: rA_flat rB_flat e)
qed



text \<open>
  C8 (no screen correction of the vendor compass value).  The source comments the
  vendor value as ``already screen-corrected'', yet line 290 adds the screen angle to
  every heading that is not \<open>null\<close>, the vendor value included.  With the screen
  rotated by 90 degrees and a vendor compass value of 100 degrees, the heading handed to
  the smoothing is 190 degrees, not 100.
\<close>

theorem vendor_heading_screen_corrected:
  "eventHeading (vendorEvent 100) = Value (Num 100)
   \<and> getScreenAngle landscape = 90
   \<and> correctedHeading landscape (vendorEvent 100) = Value (Num 190)
   \<and> lastHeadingRef (handleOrientation landscape (vendorEvent 100) (initialHook True))
       = Some (Num 190)"
proof -
  have n: "normalizeAngle 190 = 190" by code_simp
  have e: "eventHeading (vendorEvent 100) = Value (Num 100)"
    by (simp add: eventHeading_def vendorEvent_def)
  have g: "getScreenAngle landscape = 90"
    by (simp add: getScreenAngle_def landscape_def)
  have c: "correctedHeading landscape (vendorEvent 100) = Value (Num 190)"
    by (simp add: correctedHeading_def e g n)
  show ?thesis
    by (simp add: e g c handleOrientation_def initialHook_def smoothed_None)
qed

text \<open>
  C9 (Euler-to-compass conversion), as the claim words it, fails on the code.  For the
  angles (135, 90, 0) both components are negative: the code shifts by \<open>\<pi>\<close> only and
  yields 225 degrees, where the worded rule (``by \<open>2\<pi>\<close> when additionally \<open>rA < 0\<close>'')
  yields 405 degrees, a different direction.  For the angles (45, 90, 0) the component
  \<open>rB\<close> is positive, the arc tangent is \<open>-\<pi>/4\<close>, outside \<open>[0, \<pi>]\<close>, and the code does
  shift it by \<open>2\<pi>\<close> (to 315 degrees).  For the angles (0, 0, 0) both components are zero,
  and the arc tangent of their quotient is \<open>NaN\<close>, which lies in no interval.
\<close>

theorem euler_heading_counterexample:
  "rA 135 90 0 < 0 \<and> rB 135 90 0 < 0
   \<and> computeCompassHeadingFromEuler 135 90 0 = Num 225
   \<and> spec_eulerHeading 135 90 0 = Num 405
   \<and> eventHeading (eulerEvent 135 90 0) \<noteq> Value (spec_eulerHeading 135 90 0)
   \<and> normalizeAngle 225 \<noteq> normalizeAngle 405
   \<and> 0 < rB 45 90 0
   \<and> Math_atan (js_div (rA 45 90 0) (rB 45 90 0)) = Num (- (pi / 4))
   \<and> \<not> (0 \<le> - (pi / 4) \<and> - (pi / 4) \<le> pi)
   \<and> computeCompassHeadingFromEuler 45 90 0 = Num 315
   \<and> rA 0 0 0 = 0 \<and> rB 0 0 0 = 0
   \<and> Math_atan (js_div (rA 0 0 0) (rB 0 0 0)) = NaN
   \<and> computeCompassHeadingFromEuler 0 0 0 = NaN"
proof -
  have n: "normalizeAngle 225 \<noteq> normalizeAngle 405" by code_simp
  have a: "Math_atan (js_div (rA 45 90 0) (rB 45 90 0)) = Num (- (pi / 4))"
    unfolding rA_45 rB_45 by (simp add: js_div_def arctan_one arctan_minus)
  have e: "eventHeading (eulerEvent 135 90 0) = Value (Num 225)"
    by (simp add: eventHeading_def eulerEvent_def euler_135)
  have p: "\<not> (0 \<le> - (pi / 4) \<and> - (pi / 4) \<le> pi)"
    using pi_gt_zero by linarith
  have r: "rA 135 90 0 < 0 \<and> rB 135 90 0 < 0 \<and> 0 < rB 45 90 0"
    by (simp add: rA_135 rB_135 rB_45)
  have z: "Math_atan (js_div (rA 0 0 0) (rB 0 0 0)) = NaN"
    by (simp add: rA_flat rB_flat js_div_def)
  show ?thesis
    using p r n a z by (simp add: e euler_135 euler_45 spec_135 euler_flat rA_flat rB_flat)
qed

text \<open>
  C9, amended.  For an event that reports an absolute frame, has the three Euler angles
  and no vendor value, and whose components \<open>rA\<close> and \<open>rB\<close> are not both zero, the
  heading before the screen correction is \<open>atan(rA/rB)\<close>, which lies in
  \<open>[-\<pi>/2, \<pi>/2]\<close> (it is \<open>\<pi>/2\<close> or \<open>-\<pi>/2\<close>, with the sign of \<open>rA\<close>, when \<open>rB\<close> is
  zero), shifted by \<open>\<pi>\<close> when \<open>rB < 0\<close>, and otherwise shifted by \<open>2\<pi>\<close> when \<open>rA < 0\<close>,
  then converted to degrees.
\<close>

theorem euler_heading_formula:
  assumes "ev_webkitCompassHeading ev = None" "ev_absolute ev"
    and "ev_alpha ev = Some a" "ev_beta ev = Some b" "ev_gamma ev = Some g"
    and "rA a b g \<noteq> 0 \<or> rB a b g \<noteq> 0"
  shows "(let t = (if rB a b g = 0 then (if 0 < rA a b g then pi / 2 else - (pi / 2))
                   else arctan (rA a b g / rB a b g));
              shift = (if rB a b g < 0 then pi else if rA a b g < 0 then 2 * pi else 0)
          in Math_atan (js_div (rA a b g) (rB a b g)) = Num t
           \<and> - (pi / 2) \<le> t \<and> t \<le> pi / 2
           \<and> eventHeading ev = Value (Num (((t + shift) * 180) / pi)))"
proof -
  define t where "t = (if rB a b g = 0 then (if 0 < rA a b g then pi / 2 else - (pi / 2))
                   else arctan (rA a b g / rB a b g))"
  define shift where
    "shift = (if rB a b g < 0 then pi else if rA a b g < 0 then 2 * pi else 0)"
  have at: "Math_atan (js_div (rA a b g) (rB a b g)) = Num t"
    using assms(6) by (auto simp: js_div_def t_def)
  have tb: "- (pi / 2) \<le> t" "t \<le> pi / 2"
    unfolding t_def using arctan_lbound [of "rA a b g / rB a b g"]
      arctan_ubound [of "rA a b g / rB a b g"] pi_gt_zero
    by (auto simp: less_imp_le)
  have c: "computeCompassHeadingFromEuler a b g = Num (((t + shift) * 180) / pi)"
    unfolding computeCompassHeadingFromEuler_def Let_def at
    by (simp add: shift_def)
  have e: "eventHeading ev = Value (Num (((t + shift) * 180) / pi))"
    using assms(1-5) c by (simp add: eventHeading_def)
  show ?thesis
    unfolding Let_def t_def [symmetric] shift_def [symmetric]
    using at tb e by blast
qed

theorem euler_heading_formula_witness:
  "rB 135 90 0 \<noteq> 0 \<and> eventHeading (eulerEvent 135 90 0) = Value (Num 225)
   \<and> rA 0 0 90 \<noteq> 0 \<and> rB 0 0 90 = 0 \<and> eventHeading (eulerEvent 0 0 90) = Value (Num 270)"
proof -
  have nz: "rA 135 90 0 \<noteq> 0 \<or> rB 135 90 0 \<noteq> 0" by (simp add: rB_135)
  have v: "((arctan (rA 135 90 0 / rB 135 90 0)
             + (if rB 135 90 0 < 0 then pi else if rA 135 90 0 < 0 then 2 * pi else 0)) * 180) / pi
           = 225"
    by (simp add: rA_135 rB_135 arctan_one)
  have b: "rB 135 90 0 \<noteq> 0" by (simp add: rB_135)
  have 1: "eventHeading (eulerEvent 135 90 0) = Value (Num 225)"
    using euler_heading_formula [of "eulerEvent 135 90 0" 135 90 0, OF _ _ _ _ _ nz] b v
    by (simp add: eulerEvent_def Let_def)
  have nz2: "rA 0 0 90 \<noteq> 0 \<or> rB 0 0 90 \<noteq> 0" by (simp add: rA_edge)
  have 2: "eventHeading (eulerEvent 0 0 90) = Value (Num 270)"
    using euler_heading_formula [of "eulerEvent 0 0 90" 0 0 90, OF _ _ _ _ _ nz2]
    by (simp add: eulerEvent_def Let_def rA_edge rB_edge)
  show ?thesis using b 1 2 by (simp add: rA_edge rB_edge)
qed

section \<open>Lemmas about the geo query engine\<close>

subsection \<open>Rate limiter\<close>

lemma random_below_nonneg: "0 \<le> u \<Longrightarrow> 0 \<le> n \<Longrightarrow> 0 \<le> random_below u n"
  by (simp add: random_below_def)

lemma waitForRateLimit_inv:
  assumes inv: "limiter_inv cfg s H"
    and cfg: "0 < MIN_INTERVAL_MS cfg" "1 \<le> MAX_REQS_PER_WINDOW cfg"
    and e: "valid_draws e"
  shows "limiter_inv cfg (waitForRateLimit cfg e s) (lastRequestTs (waitForRateLimit cfg e s) # H)"
proof -
  let ?MIN = "MIN_INTERVAL_MS cfg" and ?W = "WINDOW_MS cfg" and ?MAX = "MAX_REQS_PER_WINDOW cfg"
  from inv obtain R Old where H: "H = R @ Old" and rec: "recentRequests s = rev R"
    and old: "\<forall>g\<in>set Old. g + ?W \<le> clock s"
    and len: "length R \<le> ?MAX + 1"
    and full: "length R = ?MAX + 1 \<longrightarrow> last R + ?W \<le> hd R"
    and le: "\<forall>g\<in>set H. g \<le> lastRequestTs s"
    and sp: "spaced cfg H"
    unfolding limiter_inv_def by blast
  have j1: "0 \<le> random_below (u1 e) 150" and j2: "0 \<le> random_below (u2 e) 150"
    using e by (simp_all add: valid_draws_def random_below_nonneg)
  define now where "now = clock s + int (arrive e)"
  define since where "since = now - lastRequestTs s"
  define t2 where "t2 = (if since < ?MIN then now + (?MIN - since + random_below (u1 e) 150)
                else now) + int (tick1 e)"
  define cutoff where "cutoff = t2 - ?W"
  define A where "A = takeWhile (\<lambda>r. r < cutoff) (rev R)"
  define B where "B = dropWhile (\<lambda>r. r < cutoff) (rev R)"
  define t3 where "t3 = t2 + int (tick2 e)"
  define t4 where "t4 = (if length B \<ge> ?MAX
                then (case B of
                        [] \<Rightarrow> t3
                      | r0 # _ \<Rightarrow>
                          let waitMs = ?W - (t3 - r0) + random_below (u2 e) 150
                          in if waitMs > 0 then t3 + waitMs else t3)
                else t2)"
  define ts where "ts = t4 + int (tick3 e)"
  have w: "waitForRateLimit cfg e s = \<lparr>clock = ts, lastRequestTs = ts, recentRequests = B @ [ts]\<rparr>"
    unfolding waitForRateLimit_def Let_def rec ts_def t4_def t3_def B_def cutoff_def t2_def
      since_def now_def ..
  have t2_min: "lastRequestTs s + ?MIN \<le> t2"
    unfolding t2_def since_def using j1 by (auto simp: )
  have t2_clock: "clock s \<le> t2"
    unfolding t2_def now_def using j1 by auto
  have t3_t2: "t2 \<le> t3" unfolding t3_def by simp
  have t4_t2: "t2 \<le> t4"
    unfolding t4_def using t3_t2 by (auto simp: Let_def split: list.splits)
  have ts_t2: "t2 \<le> ts" unfolding ts_def using t4_t2 by simp
  have AB: "rev R = A @ B" unfolding A_def B_def by simp
  then have R: "R = rev B @ rev A" by (metis rev_append rev_rev_ident)
  have A_old: "\<forall>g\<in>set A. g + ?W < t2"
  proof
    fix g assume "g \<in> set A"
    then have "g < cutoff" unfolding A_def by (rule set_takeWhileD [THEN conjunct2])
    then show "g + ?W < t2" unfolding cutoff_def by simp
  qed
  have lenB: "length B \<le> ?MAX"
  proof (cases "length R = ?MAX + 1")
    case True
    then have ne: "R \<noteq> []" by auto
    have "last R + ?W \<le> hd R" using full True by simp
    moreover have "hd R \<le> lastRequestTs s" using le ne H by (cases R) auto
    ultimately have lt: "last R < cutoff" unfolding cutoff_def using t2_min cfg(1) by linarith
    obtain x xs where xs: "rev R = x # xs" using ne by (cases "rev R") auto
    have x: "x = last R" using xs ne by (metis hd_rev list.sel(1))
    have "A = x # takeWhile (\<lambda>r. r < cutoff) xs"
      unfolding A_def xs using lt x by simp
    then have "A \<noteq> []" by simp
    then have "length B < length (rev R)" using AB by (metis length_append length_greater_0_conv less_add_same_cancel2 add.commute)
    then show ?thesis using True by simp
  next
    case False
    have "length B \<le> length R" using AB by (metis length_append length_rev le_add2)
    then show ?thesis using False len by linarith
  qed
  have waited: "length B = ?MAX \<Longrightarrow> hd B + ?W \<le> ts"
  proof -
    assume l: "length B = ?MAX"
    then obtain r0 rest where B: "B = r0 # rest" using cfg(2) by (cases B) auto
    have "r0 + ?W \<le> t4"
      unfolding t4_def using l B j2 by (auto simp: Let_def)
    then show ?thesis unfolding ts_def using B by simp
  qed
  let ?ts = "lastRequestTs (waitForRateLimit cfg e s)"
  have ts: "?ts = ts" by (simp add: w)
  let ?R' = "ts # rev B" and ?Old' = "rev A @ Old"
  have 1: "ts # H = ?R' @ ?Old'" using H R by simp
  have 2: "recentRequests (waitForRateLimit cfg e s) = rev ?R'" by (simp add: w)
  have 3: "\<forall>g\<in>set ?Old'. g + ?W \<le> clock (waitForRateLimit cfg e s)"
    using A_old old t2_clock ts_t2 by (auto simp: w)
  have 4: "length ?R' \<le> ?MAX + 1" using lenB by simp
  have 5: "length ?R' = ?MAX + 1 \<longrightarrow> last ?R' + ?W \<le> hd ?R'"
  proof
    assume "length ?R' = ?MAX + 1"
    then have l: "length B = ?MAX" by simp
    then have "B \<noteq> []" using cfg(2) by auto
    then have "last ?R' = hd B" by (simp add: last_rev)
    then show "last ?R' + ?W \<le> hd ?R'" using waited [OF l] by simp
  qed
  have 6: "\<forall>g\<in>set (ts # H). g \<le> lastRequestTs (waitForRateLimit cfg e s)"
    using le t2_min ts_t2 cfg(1) by (auto simp: w)
  have 7: "spaced cfg (ts # H)"
  proof -
    have a: "\<forall>x\<in>set H. x + ?MIN \<le> ts" using le t2_min ts_t2 by fastforce
    have b: "\<forall>x\<in>set (drop (?MAX - 1) H). x + ?W \<le> ts"
    proof (cases "length B = ?MAX")
      case True
      then have Bne: "B \<noteq> []" using cfg(2) by auto
      have "drop (?MAX - 1) H = drop (?MAX - 1) (rev B) @ ?Old'"
        using H R True by simp
      moreover have "drop (?MAX - 1) (rev B) = [hd B]"
      proof -
        obtain r0 rest where B: "B = r0 # rest" using Bne by (cases B) auto
        then have "length (rev rest) = ?MAX - 1" using True by simp
        then have "drop (?MAX - 1) (rev rest @ [r0]) = [r0]" by simp
        then show ?thesis using B by simp
      qed
      ultimately show ?thesis using waited [OF True] 3 by (auto simp: w)
    next
      case False
      then have "length (rev B) \<le> ?MAX - 1" using lenB by simp
      then have "drop (?MAX - 1) H = drop (?MAX - 1 - length B) ?Old'"
        using H R by simp
      then have "set (drop (?MAX - 1) H) \<subseteq> set ?Old'" by (metis set_drop_subset)
      then show ?thesis using 3 by (auto simp: w)
    qed
    show ?thesis using a b sp by simp
  qed
  show ?thesis
    unfolding limiter_inv_def ts
    using 1 2 3 4 5 6 7 by (intro exI [of _ ?R'] exI [of _ ?Old']) (simp add: ts)
qed

lemma slots_spaced:
  assumes "limiter_inv cfg s H" "0 < MIN_INTERVAL_MS cfg" "1 \<le> MAX_REQS_PER_WINDOW cfg"
    and "\<forall>e\<in>set es. valid_draws e"
  shows "spaced cfg (rev (slots cfg s es) @ H)"
  using assms(1,4)
proof (induction es arbitrary: s H)
  case Nil
  then show ?case by (auto simp: limiter_inv_def)
next
  case (Cons e es)
  let ?s' = "waitForRateLimit cfg e s"
  have "limiter_inv cfg ?s' (lastRequestTs ?s' # H)"
    using Cons.prems assms(2,3) by (intro waitForRateLimit_inv) simp_all
  then have "spaced cfg (rev (slots cfg ?s' es) @ lastRequestTs ?s' # H)"
    using Cons.IH Cons.prems(2) by simp
  then show ?case by (simp add: Let_def)
qed

lemma length_slots: "length (slots cfg s es) = length es"
  by (induction es arbitrary: s) (simp_all add: Let_def)

lemma initial_inv: "limiter_inv cfg (initialLimiter t0) []"
  by (simp add: limiter_inv_def initialLimiter_def)

lemma spaced_nth:
  assumes "spaced cfg H" "i < j" "j < length H"
  shows "H ! j + MIN_INTERVAL_MS cfg \<le> H ! i"
    and "1 \<le> MAX_REQS_PER_WINDOW cfg \<Longrightarrow> i + MAX_REQS_PER_WINDOW cfg \<le> j
         \<Longrightarrow> H ! j + WINDOW_MS cfg \<le> H ! i"
  using assms
proof (induction H arbitrary: i j)
  case Nil
  { case 1 then show ?case by simp }
  { case 2 then show ?case by simp }
next
  case (Cons g H)
  { case 1
    show ?case
    proof (cases i)
      case 0
      then have "(g # H) ! j = H ! (j - 1)" "j - 1 < length H" using 1 by (auto simp: nth_Cons')
      then show ?thesis using 1 0 by (auto simp: )
    next
      case (Suc i')
      then obtain j' where j: "j = Suc j'" using 1 by (cases j) auto
      then show ?thesis using Cons.IH(1) [of i' j'] 1 Suc by simp
    qed }
  { case 2
    let ?M = "MAX_REQS_PER_WINDOW cfg"
    show ?case
    proof (cases i)
      case 0
      then have jM: "?M - 1 \<le> j - 1" "j - 1 < length H" using 2 by auto
      then have "?M - 1 + (j - 1 - (?M - 1)) = j - 1" by linarith
      then have "H ! (j - 1) = drop (?M - 1) H ! (j - 1 - (?M - 1))"
        using jM by (simp only: nth_drop)
      moreover have "j - 1 - (?M - 1) < length (drop (?M - 1) H)" using jM by auto
      ultimately have "H ! (j - 1) \<in> set (drop (?M - 1) H)" by (metis nth_mem)
      moreover have "(g # H) ! j = H ! (j - 1)" using 2 0 by (auto simp: nth_Cons')
      ultimately show ?thesis using 2 0 by auto
    next
      case (Suc i')
      then obtain j' where j: "j = Suc j'" using 2 by (cases j) auto
      then show ?thesis using Cons.IH(2) [of i' j'] 2 Suc by simp
    qed }
qed

lemma filter_spread:
  "n < length (filter P xs) \<Longrightarrow> \<exists>i j. i + n \<le> j \<and> j < length xs \<and> P (xs ! i) \<and> P (xs ! j)"
proof (induction xs arbitrary: n)
  case Nil
  then show ?case by simp
next
  case (Cons x xs)
  show ?case
  proof (cases "P x")
    case True
    show ?thesis
    proof (cases n)
      case 0
      then show ?thesis using True by (intro exI [of _ 0]) simp
    next
      case (Suc m)
      then have "m < length (filter P xs)" using Cons.prems True by simp
      from Cons.IH [OF this] obtain i j where
        ij: "i + m \<le> j" "j < length xs" "P (xs ! j)" by blast
      show ?thesis
        using True ij Suc by (intro exI [of _ 0] exI [of _ "Suc j"]) simp
    qed
  next
    case False
    then have "n < length (filter P xs)" using Cons.prems by simp
    from Cons.IH [OF this] obtain i j where
      ij: "i + n \<le> j" "j < length xs" "P (xs ! i)" "P (xs ! j)" by blast
    show ?thesis
      using ij by (intro exI [of _ "Suc i"] exI [of _ "Suc j"]) simp
  qed
qed

lemma slots_general:
  fixes t0 :: int
  assumes cfg: "0 < MIN_INTERVAL_MS cfg" "1 \<le> MAX_REQS_PER_WINDOW cfg"
    and es: "\<forall>e\<in>set es. valid_draws e"
  defines "G \<equiv> slots cfg (initialLimiter t0) es"
  shows "\<forall>i. i + 1 < length G \<longrightarrow> G ! i + MIN_INTERVAL_MS cfg \<le> G ! (i + 1)"
    and "\<forall>i j. i + MAX_REQS_PER_WINDOW cfg \<le> j \<and> j < length G
           \<longrightarrow> G ! i + WINDOW_MS cfg \<le> G ! j"
    and "\<forall>t. length (filter (\<lambda>g. t \<le> g \<and> g < t + WINDOW_MS cfg) G) \<le> MAX_REQS_PER_WINDOW cfg"
proof -
  have sp: "spaced cfg (rev G)"
    using slots_spaced [OF initial_inv cfg es, of t0] by (simp add: G_def)
  have idx: "\<And>i. i < length G \<Longrightarrow> G ! i = rev G ! (length G - 1 - i)"
    by (simp add: rev_nth)
  show 1: "\<forall>i. i + 1 < length G \<longrightarrow> G ! i + MIN_INTERVAL_MS cfg \<le> G ! (i + 1)"
  proof (intro allI impI)
    fix i assume i: "i + 1 < length G"
    have "rev G ! (length G - 1 - i) + MIN_INTERVAL_MS cfg \<le> rev G ! (length G - 1 - (i + 1))"
      using i by (intro spaced_nth(1) [OF sp]) auto
    then show "G ! i + MIN_INTERVAL_MS cfg \<le> G ! (i + 1)"
      using i idx [of i] idx [of "i + 1"] by simp
  qed
  show 2: "\<forall>i j. i + MAX_REQS_PER_WINDOW cfg \<le> j \<and> j < length G
           \<longrightarrow> G ! i + WINDOW_MS cfg \<le> G ! j"
  proof (intro allI impI)
    fix i j assume ij: "i + MAX_REQS_PER_WINDOW cfg \<le> j \<and> j < length G"
    have "rev G ! (length G - 1 - i) + WINDOW_MS cfg \<le> rev G ! (length G - 1 - j)"
      using ij cfg(2) by (intro spaced_nth(2) [OF sp]) auto
    then show "G ! i + WINDOW_MS cfg \<le> G ! j"
      using ij idx [of i] idx [of j] by simp
  qed
  show "\<forall>t. length (filter (\<lambda>g. t \<le> g \<and> g < t + WINDOW_MS cfg) G) \<le> MAX_REQS_PER_WINDOW cfg"
  proof (intro allI, rule ccontr)
    fix t
    assume "\<not> length (filter (\<lambda>g. t \<le> g \<and> g < t + WINDOW_MS cfg) G) \<le> MAX_REQS_PER_WINDOW cfg"
    then have "MAX_REQS_PER_WINDOW cfg < length (filter (\<lambda>g. t \<le> g \<and> g < t + WINDOW_MS cfg) G)"
      by simp
    from filter_spread [OF this] obtain i j where
      ij: "i + MAX_REQS_PER_WINDOW cfg \<le> j" "j < length G"
        "t \<le> G ! i" "G ! j < t + WINDOW_MS cfg" by blast
    then have "G ! i + WINDOW_MS cfg \<le> G ! j" using 2 by blast
    then show False using ij by linarith
  qed
qed

lemma immediate_slots:
  "slots defaultConfig (initialLimiter 1000000) (replicate 5 immediate)
     = [1000000, 1002000, 1004000, 1010000, 1012000]"
  by code_simp

subsection \<open>Endpoint failover\<close>









subsection \<open>Response mapping\<close>

lemma mapElement_dropped:
  "mapElement el = None \<longleftrightarrow>
     (el_tags el = None
      \<or> (\<exists>tags. el_tags el = Some tags \<and> mapOsmTagsToType tags = None)
      \<or> (\<not> (el_type el = Node \<and> truthy_number (el_lat el) \<and> truthy_number (el_lon el))
          \<and> el_center el = None))"
  by (auto simp: mapElement_def Let_def split: option.splits)

lemma pub_is_bar: "mapOsmTagsToType pubTags = Some Bar"
  by (simp add: mapOsmTagsToType_def pubTags_def)

lemma wine_is_cellar: "mapOsmTagsToType [''shop'' \<mapsto> ''wine''] = Some WineCellar"
  by (simp add: mapOsmTagsToType_def)

subsection \<open>Cache and in-flight requests\<close>

lemma queryOverpass_launch:
  assumes "inFlightRequests s k = None" "key_of p = k" "stale s k now"
  shows "queryOverpass p now now' s =
     (Awaits (next_promise s),
      s\<lparr>cache := cleanExpiredCache now' (cache s),
        inFlightRequests := (inFlightRequests s)(k \<mapsto> next_promise s),
        next_promise := next_promise s + 1,
        fetches := fetches s @ [(next_promise s, k)]\<rparr>)"
  using assms by (auto simp: queryOverpass_def stale_def Let_def split: option.splits)

lemma queryOverpass_subscribe:
  assumes "inFlightRequests s k = Some pr" "key_of p = k" "stale s k now"
  shows "queryOverpass p now now' s = (Awaits pr, s)"
  using assms by (auto simp: queryOverpass_def stale_def Let_def split: option.splits)

lemma queryOverpass_hit:
  assumes "cache s k = Some entry" "key_of p = k" "now - ce_timestamp entry < CACHE_DURATION"
  shows "queryOverpass p now now' s = (Returned (ce_data entry), s)"
  using assms by (simp add: queryOverpass_def Let_def)

lemma settle_and_resume:
  assumes "inFlightRequests s k = Some pr" "promises s pr = None"
  shows "inFlightRequests (run [Settled k result now, Resumed k] s) k = None
         \<and> promises (run [Settled k result now, Resumed k] s) pr = Some (settled_as result)
         \<and> fetches (run [Settled k result now, Resumed k] s) = fetches s"
  using assms
  by (cases result) (simp_all add: fetchSettled_def leaderResumed_def settled_as_def Let_def)

lemma step_numbered: "numbered s \<Longrightarrow> numbered (step ev s)"
proof (cases ev)
  case (Call p now now')
  assume n: "numbered s"
  show ?thesis
  proof (cases "fst (queryOverpass p now now' s) = Awaits (next_promise s)
                 \<and> inFlightRequests s (key_of p) = None")
    case True
    then have "step ev s = s\<lparr>cache := cleanExpiredCache now' (cache s),
        inFlightRequests := (inFlightRequests s)(key_of p \<mapsto> next_promise s),
        next_promise := next_promise s + 1,
        fetches := fetches s @ [(next_promise s, key_of p)]\<rparr>"
      unfolding Call by (auto simp: queryOverpass_def Let_def split: option.splits if_splits)
    then show ?thesis using n
      by (fastforce simp: numbered_def less_Suc_eq split: if_splits)
  next
    case False
    then have "step ev s = s"
      unfolding Call by (auto simp: queryOverpass_def Let_def split: option.splits if_splits)
    then show ?thesis using n by simp
  qed
next
  case (Settled k result now)
  assume "numbered s"
  then show ?thesis unfolding Settled
    by (fastforce simp: numbered_def fetchSettled_def Let_def not_le
        split: option.splits sum.splits)
next
  case (Resumed k)
  assume "numbered s"
  then show ?thesis unfolding Resumed
    by (auto simp: numbered_def leaderResumed_def split: option.splits if_splits)
qed

lemma run_numbered: "numbered s \<Longrightarrow> numbered (run evs s)"
  by (induction evs arbitrary: s) (simp_all add: step_numbered)

lemma reachable_numbered: "numbered (run evs initialEngine)"
  by (rule run_numbered) (simp add: numbered_def initialEngine_def)

lemma call_on_weaken:
  assumes "call_on s k c" "cache s' k = cache s k \<or> cache s' k = None"
  shows "call_on s' k c"
  using assms by (cases c) (auto simp: stale_def split: option.splits)

lemma other_step:
  assumes "event_key ev \<noteq> k"
  shows "inFlightRequests (step ev s) k = inFlightRequests s k"
    and "cache (step ev s) k = cache s k \<or> cache (step ev s) k = None"
    and "fetches_for k (step ev s) = fetches_for k s"
proof -
  show "inFlightRequests (step ev s) k = inFlightRequests s k"
    using assms
    by (cases ev)
       (auto simp: queryOverpass_def fetchSettled_def leaderResumed_def Let_def
             split: option.splits sum.splits if_splits)
  show "cache (step ev s) k = cache s k \<or> cache (step ev s) k = None"
    using assms
    by (cases ev)
       (auto simp: queryOverpass_def fetchSettled_def leaderResumed_def Let_def
             cleanExpiredCache_def
             split: option.splits sum.splits if_splits)
  show "fetches_for k (step ev s) = fetches_for k s"
    using assms
    by (cases ev)
       (auto simp: queryOverpass_def fetchSettled_def leaderResumed_def Let_def fetches_for_def
             split: option.splits sum.splits if_splits)
qed

lemma other_step_promise:
  assumes "event_key ev \<noteq> k" "numbered s" "inFlightRequests s k = Some pr"
  shows "promises (step ev s) pr = promises s pr"
proof (cases ev)
  case (Call p now now')
  then show ?thesis
    by (auto simp: queryOverpass_def Let_def split: option.splits if_splits)
next
  case (Settled k' result now)
  then have "k' \<noteq> k" using assms(1) by simp
  then have "inFlightRequests s k' \<noteq> Some pr"
    using assms(2,3) unfolding numbered_def by blast
  then show ?thesis unfolding Settled
    by (auto simp: fetchSettled_def Let_def split: option.splits sum.splits)
next
  case (Resumed k')
  then show ?thesis
    by (auto simp: leaderResumed_def split: option.splits)
qed

lemma awaiting:
  assumes "numbered s" "inFlightRequests s k = Some pr" "promises s pr = None"
    and "\<forall>ev\<in>set evs. event_key ev = k \<longrightarrow> call_on s k ev"
  shows "answers_for k evs s = replicate (length (filter (\<lambda>ev. event_key ev = k) evs)) (Awaits pr)
       \<and> fetches_for k (run evs s) = fetches_for k s
       \<and> inFlightRequests (run evs s) k = Some pr
       \<and> promises (run evs s) pr = None"
  using assms
proof (induction evs arbitrary: s)
  case Nil
  then show ?case by simp
next
  case (Cons ev evs)
  show ?case
  proof (cases "event_key ev = k")
    case True
    then have "call_on s k ev" using Cons.prems(4) by simp
    then obtain p now now' where c: "ev = Call p now now'" "key_of p = k" "stale s k now"
      by (cases ev) auto
    have q: "queryOverpass p now now' s = (Awaits pr, s)"
      using Cons.prems(2) c(2,3) by (rule queryOverpass_subscribe)
    have st: "step ev s = s" using c(1) q by simp
    have "\<forall>ev\<in>set evs. event_key ev = k \<longrightarrow> call_on s k ev" using Cons.prems(4) by simp
    from Cons.IH [OF Cons.prems(1,2,3) this]
    show ?thesis using c(1,2) q st True by simp
  next
    case False
    let ?s' = "step ev s"
    have 1: "numbered ?s'" using Cons.prems(1) by (rule step_numbered)
    have 2: "inFlightRequests ?s' k = Some pr"
      using other_step(1) [OF False] Cons.prems(2) by simp
    have 3: "promises ?s' pr = None"
      using other_step_promise [OF False Cons.prems(1,2)] Cons.prems(3) by simp
    have c: "cache ?s' k = cache s k \<or> cache ?s' k = None"
      by (rule other_step(2) [OF False])
    have 4: "\<forall>ev\<in>set evs. event_key ev = k \<longrightarrow> call_on ?s' k ev"
    proof (intro ballI impI)
      fix e assume "e \<in> set evs" "event_key e = k"
      then have "call_on s k e" using Cons.prems(4) by simp
      then show "call_on ?s' k e" using c by (rule call_on_weaken)
    qed
    have a: "answers_for k (ev # evs) s = answers_for k evs ?s'"
      using False by (cases ev) auto
    from Cons.IH [OF 1 2 3 4]
    show ?thesis using a False other_step(3) [OF False, of s] by simp
  qed
qed

lemma launching:
  assumes "numbered s" "inFlightRequests s k = None"
    and "\<exists>ev\<in>set evs. event_key ev = k"
    and "\<forall>ev\<in>set evs. event_key ev = k \<longrightarrow> call_on s k ev"
  shows "\<exists>pr. answers_for k evs s
               = replicate (length (filter (\<lambda>ev. event_key ev = k) evs)) (Awaits pr)
       \<and> fetches_for k (run evs s) = fetches_for k s @ [(pr, k)]
       \<and> inFlightRequests (run evs s) k = Some pr
       \<and> promises (run evs s) pr = None"
  using assms
proof (induction evs arbitrary: s)
  case Nil
  then show ?case by simp
next
  case (Cons ev evs)
  show ?case
  proof (cases "event_key ev = k")
    case True
    then have "call_on s k ev" using Cons.prems(4) by simp
    then obtain p now now' where c: "ev = Call p now now'" "key_of p = k" "stale s k now"
      by (cases ev) auto
    let ?pr = "next_promise s"
    let ?s1 = "s\<lparr>cache := cleanExpiredCache now' (cache s),
        inFlightRequests := (inFlightRequests s)(k \<mapsto> ?pr),
        next_promise := ?pr + 1,
        fetches := fetches s @ [(?pr, k)]\<rparr>"
    have q: "queryOverpass p now now' s = (Awaits ?pr, ?s1)"
      using Cons.prems(2) c(2,3) by (rule queryOverpass_launch)
    have st: "step ev s = ?s1" using c(1) q by simp
    have 1: "numbered ?s1" using step_numbered [OF Cons.prems(1), of ev] st by simp
    have 2: "inFlightRequests ?s1 k = Some ?pr" by simp
    have 3: "promises ?s1 ?pr = None" using Cons.prems(1) by (simp add: numbered_def)
    have cc: "cache ?s1 k = cache s k \<or> cache ?s1 k = None"
      by (simp add: cleanExpiredCache_def split: option.splits)
    have 4: "\<forall>ev\<in>set evs. event_key ev = k \<longrightarrow> call_on ?s1 k ev"
    proof (intro ballI impI)
      fix e assume "e \<in> set evs" "event_key e = k"
      then have "call_on s k e" using Cons.prems(4) by simp
      then show "call_on ?s1 k e" using cc by (rule call_on_weaken)
    qed
    have f: "fetches_for k ?s1 = fetches_for k s @ [(?pr, k)]"
      by (simp add: fetches_for_def)
    from awaiting [OF 1 2 3 4]
    show ?thesis
      using c(1,2) q st True f by (intro exI [of _ ?pr]) simp
  next
    case False
    let ?s' = "step ev s"
    have 1: "numbered ?s'" using Cons.prems(1) by (rule step_numbered)
    have 2: "inFlightRequests ?s' k = None"
      using other_step(1) [OF False] Cons.prems(2) by simp
    have 3: "\<exists>ev\<in>set evs. event_key ev = k" using Cons.prems(3) False by auto
    have c: "cache ?s' k = cache s k \<or> cache ?s' k = None"
      by (rule other_step(2) [OF False])
    have 4: "\<forall>ev\<in>set evs. event_key ev = k \<longrightarrow> call_on ?s' k ev"
    proof (intro ballI impI)
      fix e assume "e \<in> set evs" "event_key e = k"
      then have "call_on s k e" using Cons.prems(4) by simp
      then show "call_on ?s' k e" using c by (rule call_on_weaken)
    qed
    have a: "answers_for k (ev # evs) s = answers_for k evs ?s'"
      using False by (cases ev) auto
    from Cons.IH [OF 1 2 3 4]
    show ?thesis using a False other_step(3) [OF False, of s] by simp
  qed
qed

lemma settle_and_resume_for:
  assumes "inFlightRequests s k = Some pr" "promises s pr = None"
  shows "inFlightRequests (run [Settled k result now, Resumed k] s) k = None
         \<and> promises (run [Settled k result now, Resumed k] s) pr = Some (settled_as result)
         \<and> fetches_for k (run [Settled k result now, Resumed k] s) = fetches_for k s"
  using settle_and_resume [OF assms, of result now] by (simp add: fetches_for_def)

lemma step_keeps_entry:
  assumes "cache s k = Some entry" "inFlightRequests s k = None" "in_ttl (ce_timestamp entry) ev"
  shows "cache (step ev s) k = Some entry \<and> inFlightRequests (step ev s) k = None"
proof (cases ev)
  case (Call p now now')
  show ?thesis
  proof (cases "key_of p = k")
    case True
    then have "queryOverpass p now now' s = (Returned (ce_data entry), s)"
      using assms Call by (intro queryOverpass_hit) simp_all
    then show ?thesis using assms Call by simp
  next
    case False
    then show ?thesis using assms Call
      by (auto simp: queryOverpass_def Let_def cleanExpiredCache_def split: option.splits)
  qed
next
  case (Settled k' result t)
  then show ?thesis using assms
    by (cases "k' = k") (auto simp: fetchSettled_def Let_def split: option.splits sum.splits)
next
  case (Resumed k')
  then show ?thesis using assms
    by (auto simp: leaderResumed_def split: option.splits)
qed

lemma run_keeps_entry:
  assumes "cache s k = Some entry" "inFlightRequests s k = None"
    and "\<forall>ev\<in>set evs. in_ttl (ce_timestamp entry) ev"
  shows "cache (run evs s) k = Some entry \<and> inFlightRequests (run evs s) k = None"
  using assms
proof (induction evs arbitrary: s)
  case Nil
  then show ?case by simp
next
  case (Cons ev evs)
  have "cache (step ev s) k = Some entry \<and> inFlightRequests (step ev s) k = None"
    using Cons.prems by (intro step_keeps_entry) simp_all
  then show ?case using Cons by simp
qed

lemma settle_caches:
  assumes "inFlightRequests s k = Some pr" "promises s pr = None"
  shows "cache (run [Settled k (Inr resp) T, Resumed k] s) k
           = Some \<lparr>ce_data = toEstablishments resp, ce_timestamp = T\<rparr>
         \<and> inFlightRequests (run [Settled k (Inr resp) T, Resumed k] s) k = None"
  using assms by (simp add: fetchSettled_def leaderResumed_def Let_def)

lemma key_paris: "key_of paris = ProximityKey 48.86 2.35 5 ''bar''"
  by (simp add: key_of_def getCacheKey_def paris_def math_round_def truthy_string_def)

lemma key_nearby: "key_of nearby = key_of paris"
  by (simp add: key_of_def getCacheKey_def paris_def nearby_def math_round_def truthy_string_def)

lemma first_call:
  "queryOverpass paris 0 0 initialEngine =
     (Awaits 0,
      \<lparr>cache = Map.empty,
       inFlightRequests = [key_of paris \<mapsto> 0], promises = Map.empty,
       next_promise = 1, fetches = [(0, key_of paris)]\<rparr>)"
  by (simp add: queryOverpass_def initialEngine_def Let_def cleanExpiredCache_def)

lemma clean_empty: "cleanExpiredCache t Map.empty = Map.empty"
  by (simp add: cleanExpiredCache_def)

lemma warm_state:
  "warm = \<lparr>cache = [key_of paris \<mapsto> \<lparr>ce_data = toEstablishments onePub, ce_timestamp = 1000\<rparr>],
           inFlightRequests = Map.empty,
           promises = [0 \<mapsto> Inr (toEstablishments onePub)],
           next_promise = 1, fetches = [(0, key_of paris)]\<rparr>"
  unfolding warm_def
  by (simp add: first_call fetchSettled_def leaderResumed_def Let_def)

lemma key_lyon: "key_of lyon \<noteq> key_of paris"
  by (simp add: key_of_def getCacheKey_def paris_def lyon_def math_round_def truthy_string_def)

lemma burst_answers:
  "answers_for (key_of paris) burst initialEngine = [Awaits 0, Awaits 0, Awaits 0]"
  using key_lyon
  by (simp add: burst_def queryOverpass_def initialEngine_def Let_def key_nearby
      cleanExpiredCache_def)

lemma burst_keys:
  "filter (\<lambda>ev. event_key ev = key_of paris) burst
     = [Call paris 0 0, Call nearby 5 5, Call paris 9 9]"
  using key_lyon by (simp add: burst_def key_nearby)

section \<open>Claims about the geo query engine\<close>

text \<open>
  C1 (rate limiting).  Every sequence of slot acquisitions through the limiter, run with
  the default configuration from the initial state of the module, is granted (the list of
  grants is as long as the list of acquisitions); any two consecutive grants are at least
  2000 ms apart; any grant and the third one after it are at least 10000 ms apart; and so
  every window \<open>[t, t + 10000)\<close> of ten seconds holds at most 3 grants.  The clock does not
  run backwards, a timer fires at the requested time or later, and every draw of
  \<open>Math.random\<close> lies in \<open>[0, 1)\<close>.  The witness is the tightest run: five acquisitions
  at once, no jitter, timers on time; the second and the fifth grant are exactly 10000 ms
  apart.
\<close>

theorem rate_limit_default:
  assumes "\<forall>e\<in>set es. valid_draws e"
  shows "length (slots defaultConfig (initialLimiter t0) es) = length es
       \<and> (\<forall>i. i + 1 < length es \<longrightarrow>
            slots defaultConfig (initialLimiter t0) es ! i + 2000
              \<le> slots defaultConfig (initialLimiter t0) es ! (i + 1))
       \<and> (\<forall>i. i + 3 < length es \<longrightarrow>
            slots defaultConfig (initialLimiter t0) es ! i + 10000
              \<le> slots defaultConfig (initialLimiter t0) es ! (i + 3))
       \<and> (\<forall>t. length (filter (\<lambda>g. t \<le> g \<and> g < t + 10000)
                        (slots defaultConfig (initialLimiter t0) es)) \<le> 3)"
proof -
  have cfg: "0 < MIN_INTERVAL_MS defaultConfig" "1 \<le> MAX_REQS_PER_WINDOW defaultConfig"
    by (simp_all add: defaultConfig_def)
  have v: "MIN_INTERVAL_MS defaultConfig = 2000" "WINDOW_MS defaultConfig = 10000"
    "MAX_REQS_PER_WINDOW defaultConfig = 3"
    by (simp_all add: defaultConfig_def)
  note g = slots_general [OF cfg assms, of t0, unfolded v length_slots]
  show ?thesis
    using g(1) g(2) g(3) by (auto simp: length_slots)
qed

theorem rate_limit_default_witness:
  "valid_draws immediate
   \<and> slots defaultConfig (initialLimiter 1000000) (replicate 5 immediate)
       = [1000000, 1002000, 1004000, 1010000, 1012000]
   \<and> (\<forall>t. length (filter (\<lambda>g. t \<le> g \<and> g < t + 10000)
                    [1000000, 1002000, 1004000, 1010000, 1012000 :: int]) \<le> 3)"
proof -
  have i: "valid_draws immediate"
    by (simp add: valid_draws_def immediate_def)
  then have v: "\<forall>e\<in>set (replicate 5 immediate). valid_draws e"
    by simp
  from rate_limit_default [OF v, of 1000000] show ?thesis
    unfolding immediate_slots using i by simp
qed



text \<open>
  C5 (response mapping).  A pub mapped as a node on the prime meridian (longitude 0) has
  tags that map to \<open>bar\<close> and has its own position, yet it is dropped: the test
  \<open>element.lat && element.lon\<close> takes the number zero for an absent coordinate.  The same
  node a little to the east is kept with its own coordinates.
\<close>

theorem node_on_meridian_dropped:
  "mapOsmTagsToType pubTags = Some Bar
   \<and> mapElement (pubNode 51.4779 0) = None
   \<and> map_option e_type (mapElement (pubNode 51.4779 0.0001)) = Some Bar
   \<and> map_option e_lat (mapElement (pubNode 51.4779 0.0001)) = Some 51.4779
   \<and> map_option e_lng (mapElement (pubNode 51.4779 0.0001)) = Some 0.0001"
  by (simp add: mapElement_def pubNode_def pub_is_bar truthy_number_def)

text \<open>
  C3 (in-flight deduplication).  Take any state the engine can reach in which no operation
  is pending for a key, and any history that follows in which that key occurs only in
  calls, at least one, each made while the cache has no unexpired entry for it; events
  about other keys may come in between.  Then exactly one fetch operation is started for
  the key, and every one of the calls awaits the promise of that operation.  When the
  operation settles, with a result or with an error, the promise carries that outcome, the
  record of the key is removed from \<open>inFlightRequests\<close>, and no further fetch has been
  started for the key.
\<close>

theorem in_flight_dedup:
  assumes "s = run history initialEngine"
    and "inFlightRequests s k = None"
    and "\<exists>ev\<in>set evs. event_key ev = k"
    and "\<forall>ev\<in>set evs. event_key ev = k \<longrightarrow> call_on s k ev"
  shows "\<exists>pr. answers_for k evs s
               = replicate (length (filter (\<lambda>ev. event_key ev = k) evs)) (Awaits pr)
       \<and> fetches_for k (run evs s) = fetches_for k s @ [(pr, k)]
       \<and> inFlightRequests (run evs s) k = Some pr
       \<and> promises (run evs s) pr = None
       \<and> (\<forall>result now.
            inFlightRequests (run [Settled k result now, Resumed k] (run evs s)) k = None
            \<and> promises (run [Settled k result now, Resumed k] (run evs s)) pr
                = Some (settled_as result)
            \<and> fetches_for k (run [Settled k result now, Resumed k] (run evs s))
                = fetches_for k s @ [(pr, k)])"
proof -
  have n: "numbered s" unfolding assms(1) by (rule reachable_numbered)
  from launching [OF n assms(2,3,4)] obtain pr where
    pr: "answers_for k evs s = replicate (length (filter (\<lambda>ev. event_key ev = k) evs)) (Awaits pr)"
      "fetches_for k (run evs s) = fetches_for k s @ [(pr, k)]"
      "inFlightRequests (run evs s) k = Some pr"
      "promises (run evs s) pr = None"
    by blast
  show ?thesis
    using pr settle_and_resume_for [OF pr(3,4)]
    by (intro exI [of _ pr]) (simp del: run.simps)
qed

theorem in_flight_dedup_witness:
  "answers_for (key_of paris) burst initialEngine = [Awaits 0, Awaits 0, Awaits 0]
   \<and> fetches_for (key_of paris) (run burst initialEngine) = [(0, key_of paris)]
   \<and> inFlightRequests
        (run [Settled (key_of paris) (Inl AllFailed) 7000, Resumed (key_of paris)]
           (run burst initialEngine))
        (key_of paris) = None
   \<and> promises
        (run [Settled (key_of paris) (Inl AllFailed) 7000, Resumed (key_of paris)]
           (run burst initialEngine))
        0 = Some (Inl AllFailed)"
proof -
  have h: "initialEngine = run [] initialEngine"
    "inFlightRequests initialEngine (key_of paris) = None"
    "\<exists>ev\<in>set burst. event_key ev = key_of paris"
    "\<forall>ev\<in>set burst. event_key ev = key_of paris \<longrightarrow> call_on initialEngine (key_of paris) ev"
    using key_lyon by (simp_all add: initialEngine_def stale_def key_nearby burst_def)
  from in_flight_dedup [OF h] obtain pr where
    pr: "answers_for (key_of paris) burst initialEngine
           = replicate (length (filter (\<lambda>ev. event_key ev = key_of paris) burst)) (Awaits pr)"
      "fetches_for (key_of paris) (run burst initialEngine)
           = fetches_for (key_of paris) initialEngine @ [(pr, key_of paris)]"
      "\<forall>result now.
            inFlightRequests (run [Settled (key_of paris) result now, Resumed (key_of paris)]
               (run burst initialEngine)) (key_of paris) = None
            \<and> promises (run [Settled (key_of paris) result now, Resumed (key_of paris)]
                 (run burst initialEngine)) pr
                = Some (settled_as result)"
    by blast
  have "pr = 0" using pr(1) unfolding burst_answers burst_keys by simp
  then show ?thesis
    using pr(2) pr(3) [rule_format, of "Inl AllFailed" 7000] burst_answers
    by (simp add: settled_as_def fetches_for_def initialEngine_def del: run.simps)
qed

text \<open>
  C2 (cache correctness), as the claim words it, fails on the code.  An entry expires five
  minutes after the fetch that created it, not five minutes after the last query it
  answered.  The entry below is created at time 1000.  A first query at time 240000 is
  answered from it.  A second query with the same key at time 400000, which is 160 seconds
  later, finds the entry expired and starts a new fetch operation.
\<close>

theorem cache_claim_counterexample:
  "queryOverpass nearby 240000 240000 warm = (Returned (toEstablishments onePub), warm)
   \<and> key_of nearby = key_of paris
   \<and> (400000::int) - 240000 < CACHE_DURATION
   \<and> fst (queryOverpass paris 400000 400000 warm) = Awaits 1
   \<and> fetches (snd (queryOverpass paris 400000 400000 warm)) = fetches warm @ [(1, key_of paris)]"
proof -
  have 1: "queryOverpass nearby 240000 240000 warm = (Returned (toEstablishments onePub), warm)"
    by (simp add: queryOverpass_def key_nearby warm_state CACHE_DURATION_def Let_def)
  have 2: "queryOverpass paris 400000 400000 warm =
      (Awaits 1, warm\<lparr>cache := cleanExpiredCache 400000 (cache warm),
                      inFlightRequests := (inFlightRequests warm)(key_of paris \<mapsto> 1),
                      next_promise := 2,
                      fetches := fetches warm @ [(1, key_of paris)]\<rparr>)"
    by (simp add: queryOverpass_def warm_state CACHE_DURATION_def Let_def)
  show ?thesis
    unfolding 1 2 by (simp add: key_nearby CACHE_DURATION_def)
qed

text \<open>
  C2, amended.  When the fetch operation of a key succeeds and its result is cached at the
  clock reading \<open>T\<close>, then every query whose parameters yield that key and that is made
  less than five minutes after \<open>T\<close> returns the cached list and leaves the engine as it
  is (no fetch is started), whatever calls, settlements and resumptions happened in
  between within those five minutes, as long as the cache is not cleared.
\<close>

theorem cache_hit_within_ttl:
  assumes "inFlightRequests s k = Some pr" "promises s pr = None"
    and "\<forall>ev\<in>set evs. in_ttl T ev"
    and "key_of p = k" and "now - T < CACHE_DURATION"
  shows "queryOverpass p now now' (run evs (run [Settled k (Inr resp) T, Resumed k] s))
         = (Returned (toEstablishments resp),
            run evs (run [Settled k (Inr resp) T, Resumed k] s))"
proof -
  let ?e = "\<lparr>ce_data = toEstablishments resp, ce_timestamp = T\<rparr>"
  let ?s1 = "run [Settled k (Inr resp) T, Resumed k] s"
  have 1: "cache ?s1 k = Some ?e" "inFlightRequests ?s1 k = None"
    using settle_caches [OF assms(1,2)] by blast+
  have "cache (run evs ?s1) k = Some ?e"
    using run_keeps_entry [OF 1, of evs] assms(3) by simp
  then show ?thesis
    using assms(4,5) queryOverpass_hit [of "run evs ?s1" k ?e p now now'] by simp
qed

theorem cache_hit_within_ttl_witness:
  "queryOverpass nearby 300999 300999 (run [Call nearby 240000 240000] warm)
     = (Returned (toEstablishments onePub), run [Call nearby 240000 240000] warm)"
proof -
  let ?s = "step (Call paris 0 0) initialEngine"
  have h: "inFlightRequests ?s (key_of paris) = Some 0" "promises ?s 0 = None"
    "\<forall>ev\<in>set [Call nearby 240000 240000]. in_ttl 1000 ev"
    "key_of nearby = key_of paris" "(300999::int) - 1000 < CACHE_DURATION"
    by (simp_all add: first_call key_nearby CACHE_DURATION_def)
  have w: "run [Settled (key_of paris) (Inr onePub) 1000, Resumed (key_of paris)] ?s = warm"
    by (simp add: warm_def)
  from cache_hit_within_ttl [OF h, of 300999 onePub] show ?thesis
    unfolding w .
qed

end
